theory Spec2Isabelle
  imports Main
begin

section \<open>Tokens and keys (reflective\_key.ts)\<close>

text \<open>
  A token is any JavaScript value. The constructors below cover the primitives whose
  truthiness the \<^verbatim>\<open>ReflectiveKey\<close> constructor tests, class or object references
  (identified by name, which stands for reference identity), the \<^verbatim>\<open>Injector\<close> class
  itself, and a \<^verbatim>\<open>ReflectiveKey\<close> instance used as a token (its three fields).
\<close>

datatype token =
    TUndefined
  | TNull
  | TBool bool
  | TNum int
  | TStr string
  | TClass string
  | TInjector
  | TKey token nat string

record rkey =
  token :: token
  id' :: nat
  displayName :: string

text \<open>
  What a factory throws: any JavaScript value. \<^verbatim>\<open>Thrown m s\<close> is a value other than
  \<^verbatim>\<open>null\<close> and \<^verbatim>\<open>undefined\<close>, with its message and its \<^verbatim>\<open>stack\<close> property
  (\<open>None\<close> when it has none, as a thrown string has). Reading \<^verbatim>\<open>e.stack\<close> of
  \<^verbatim>\<open>null\<close> or \<^verbatim>\<open>undefined\<close> is a TypeError.
\<close>

datatype thrown = ThrownNull | ThrownUndefined | Thrown string "string option"

text \<open>JavaScript truthiness of a token: \<^verbatim>\<open>!token\<close>.\<close>

fun falsy :: "token \<Rightarrow> bool" where
  "falsy TUndefined = True"
| "falsy TNull = True"
| "falsy (TBool b) = (\<not> b)"
| "falsy (TNum n) = (n = 0)"
| "falsy (TStr s) = (s = [])"
| "falsy (TClass c) = False"
| "falsy TInjector = False"
| "falsy (TKey t i d) = False"

text \<open>
  Modelled from the spec: \<^verbatim>\<open>stringify\<close> (util/stringify.ts) is not among the
  sources; the display name is "a stable human-readable rendering of the token".
\<close>

fun stringify :: "token \<Rightarrow> string" where
  "stringify TUndefined = ''undefined''"
| "stringify TNull = ''null''"
| "stringify (TBool b) = (if b then ''true'' else ''false'')"
| "stringify (TNum n) = ''number''"
| "stringify (TStr s) = s"
| "stringify (TClass c) = c"
| "stringify TInjector = ''Injector''"
| "stringify (TKey t i d) = d"

text \<open>
  Errors. \<^verbatim>\<open>Error msg\<close> is a plain \<^verbatim>\<open>new Error(msg)\<close>, which has no
  \<^verbatim>\<open>addKey\<close> method.

  Modelled from the spec: reflective\_errors.ts is not among the sources. Its errors
  (\<^verbatim>\<open>noProviderError\<close>, \<^verbatim>\<open>cyclicDependencyError\<close>, \<^verbatim>\<open>instantiationError\<close>)
  carry the key of the provider that raised them and the injector, and accumulate, through
  \<^verbatim>\<open>addKey\<close>, the keys and injectors visited, innermost first; an instantiation
  error carries the original failure with its message and stack.
\<close>

datatype error_kind = NoProvider | CyclicDependency | Instantiation thrown "string option"

datatype err =
    Error string
  | InjectionError error_kind "rkey list" "nat list"

text \<open>The constructor of \<^verbatim>\<open>ReflectiveKey\<close>.\<close>

definition ReflectiveKey_new :: "token \<Rightarrow> nat \<Rightarrow> err + rkey" where
  "ReflectiveKey_new tok i =
     (if falsy tok then Inl (Error ''Token must be defined!'')
      else Inr \<lparr>token = tok, id' = i, displayName = stringify tok\<rparr>)"

text \<open>
  \<^verbatim>\<open>KeyRegistry\<close>: \<^verbatim>\<open>allKeys\<close> is a JavaScript \<^verbatim>\<open>Map\<close>, kept as an
  association list in insertion order; \<^verbatim>\<open>set\<close> is only reached for an absent token,
  where it appends.
\<close>

type_synonym registry = "(token \<times> rkey) list"

definition numberOfKeys :: "registry \<Rightarrow> nat" where
  "numberOfKeys allKeys = length allKeys"

text \<open>
  \<^verbatim>\<open>KeyRegistry.get\<close>. The id of a new key is \<^verbatim>\<open>ReflectiveKey.numberOfKeys\<close>, the
  size of the global registry, passed here as \<open>globalCount\<close>.
\<close>

definition KeyRegistry_get :: "nat \<Rightarrow> registry \<Rightarrow> token \<Rightarrow> err + (rkey \<times> registry)" where
  "KeyRegistry_get globalCount allKeys tok =
     (case tok of
        TKey t i d \<Rightarrow> Inr (\<lparr>token = t, id' = i, displayName = d\<rparr>, allKeys)
      | _ \<Rightarrow>
        (case map_of allKeys tok of
           Some k \<Rightarrow> Inr (k, allKeys)
         | None \<Rightarrow>
           (case ReflectiveKey_new tok globalCount of
              Inl e \<Rightarrow> Inl e
            | Inr newKey \<Rightarrow> Inr (newKey, allKeys @ [(tok, newKey)]))))"

text \<open>
  \<^verbatim>\<open>ReflectiveKey.get\<close> on the global registry. The tokens of the model are not
  forward references, on which \<^verbatim>\<open>resolveForwardRef\<close> is the identity.
\<close>

definition ReflectiveKey_get :: "registry \<Rightarrow> token \<Rightarrow> err + (rkey \<times> registry)" where
  "ReflectiveKey_get globalKeyRegistry tok =
     KeyRegistry_get (numberOfKeys globalKeyRegistry) globalKeyRegistry tok"

text \<open>
  The invariant of the global registry: every token is registered once, and the i-th key
  registered has id i (the ids are dense and in registration order).
\<close>

definition wf_registry :: "registry \<Rightarrow> bool" where
  "wf_registry allKeys =
     (distinct (map fst allKeys) \<and> map (\<lambda>p. id' (snd p)) allKeys = [0..<length allKeys])"

section \<open>Values, providers and injectors (reflective\_injector.ts)\<close>

text \<open>
  Runtime values. \<^verbatim>\<open>VRef a\<close> is a reference to the object allocated at address
  \<open>a\<close>, \<^verbatim>\<open>VArray a vs\<close> the array allocated at \<open>a\<close>, \<^verbatim>\<open>VInjector a\<close> the
  reflective injector at address \<open>a\<close> of the store. \<^verbatim>\<open>THROW_IF_NOT_FOUND\<close> is the
  object of that name private to reflective\_injector.ts,
  \<^verbatim>\<open>Injector_THROW_IF_NOT_FOUND\<close> the one that null\_injector.ts imports from
  injector\_compatibility: two different objects.
\<close>

datatype val =
    VUndefined
  | VNull
  | VBool bool
  | VNum int
  | VStr string
  | VRef nat
  | VArray nat "val list"
  | VInjector nat
  | THROW_IF_NOT_FOUND
  | Injector_THROW_IF_NOT_FOUND

text \<open>
  A cache slot. \<^verbatim>\<open>UNDEFINED\<close> is an object private to reflective\_injector.ts that
  no factory and no caller can produce, so it is kept apart from the values.
\<close>

datatype slot = UNDEFINED | Obj val

datatype visibility = NoVisibility | Self | SkipSelf

record dependency =
  dkey :: rkey
  optional :: bool
  visibility :: visibility

text \<open>
  A factory is an opaque function of the resolved arguments. It is given the next unused
  address, where a \<^verbatim>\<open>new\<close> expression in its body allocates; it returns a value or
  throws.
\<close>

type_synonym factory = "val list \<Rightarrow> nat \<Rightarrow> thrown + val"

record resolved_factory =
  factory :: factory
  dependencies :: "dependency list"

record provider =
  key :: rkey
  resolvedFactories :: "resolved_factory list"
  multiProvider :: bool

text \<open>\<^verbatim>\<open>ReflectionCapabilities.factory\<close>: \<^verbatim>\<open>(...args) => new t(...args)\<close>.\<close>

definition reflection_factory :: factory where
  "reflection_factory args a = Inr (VRef a)"

text \<open>
  The \<^verbatim>\<open>parent\<close> field: \<^verbatim>\<open>null\<close>, a \<^verbatim>\<open>NullInjector\<close>, or the address of a
  \<^verbatim>\<open>ReflectiveInjector_\<close>.
\<close>

datatype parent_ref = PNull | PNullInjector | PReflective nat

record injector =
  constructionCounter :: nat
  providers :: "provider list"
  parent :: parent_ref
  keyIds :: "nat list"
  objs :: "slot list"

text \<open>The store: the injectors by address, and the next unused object address.\<close>

record heap =
  injectors :: "injector list"
  nextRef :: nat

text \<open>Modelled from the spec: the constructors of reflective\_errors.ts and \<^verbatim>\<open>addKey\<close>.\<close>

definition noProviderError :: "nat \<Rightarrow> rkey \<Rightarrow> err" where
  "noProviderError inj' k = InjectionError NoProvider [k] [inj']"

definition cyclicDependencyError :: "nat \<Rightarrow> rkey \<Rightarrow> err" where
  "cyclicDependencyError inj' k = InjectionError CyclicDependency [k] [inj']"

definition instantiationError :: "nat \<Rightarrow> thrown \<Rightarrow> string option \<Rightarrow> rkey \<Rightarrow> err" where
  "instantiationError inj' e originalStack k = InjectionError (Instantiation e originalStack) [k] [inj']"

text \<open>\<^verbatim>\<open>if (e.addKey) e.addKey(this, provider.key)\<close>: a plain error has no such method.\<close>

fun addKey :: "err \<Rightarrow> nat \<Rightarrow> rkey \<Rightarrow> err" where
  "addKey (InjectionError kind ks injs) inj' k = InjectionError kind (ks @ [k]) (injs @ [inj'])"
| "addKey (Error m) inj' k = Error m"

text \<open>
  \<^verbatim>\<open>INJECTOR_KEY = ReflectiveKey.get(Injector)\<close>, evaluated when the module is loaded,
  on the registry as it is then; the global registry starts from that state.
\<close>

definition INJECTOR_KEY :: rkey where
  "INJECTOR_KEY = \<lparr>token = TInjector, id' = 0, displayName = stringify TInjector\<rparr>"

definition globalKeyRegistry_init :: registry where
  "globalKeyRegistry_init = [(TInjector, INJECTOR_KEY)]"

text \<open>
  \<^verbatim>\<open>NullInjector.get\<close> (null\_injector.ts). A JavaScript default parameter value is
  used when the argument is missing or \<^verbatim>\<open>undefined\<close>.
\<close>

definition NullInjector_get :: "token \<Rightarrow> val \<Rightarrow> err + val" where
  "NullInjector_get tok notFoundValue0 =
     (let notFoundValue =
        (if notFoundValue0 = VUndefined then Injector_THROW_IF_NOT_FOUND else notFoundValue0)
      in if notFoundValue = Injector_THROW_IF_NOT_FOUND
         then Inl (Error (''No provider for '' @ stringify tok @ ''!''))
         else Inr notFoundValue)"

text \<open>The constructor of \<^verbatim>\<open>ReflectiveInjector_\<close>; \<^verbatim>\<open>parent || null\<close>.\<close>

definition ReflectiveInjector_new :: "provider list \<Rightarrow> parent_ref \<Rightarrow> injector" where
  "ReflectiveInjector_new ps par =
     \<lparr>constructionCounter = 0, providers = ps, parent = par,
      keyIds = map (\<lambda>p. id' (key p)) ps, objs = map (\<lambda>p. UNDEFINED) ps\<rparr>"

text \<open>
  \<^verbatim>\<open>fromResolvedProviders\<close> and \<^verbatim>\<open>createChildFromResolved\<close> allocate the new
  injector at the end of the store and return its address.
\<close>

definition fromResolvedProviders :: "heap \<Rightarrow> provider list \<Rightarrow> parent_ref \<Rightarrow> nat \<times> heap" where
  "fromResolvedProviders h ps par =
     (length (injectors h), h\<lparr>injectors := injectors h @ [ReflectiveInjector_new ps par]\<rparr>)"

definition createChildFromResolved :: "heap \<Rightarrow> nat \<Rightarrow> provider list \<Rightarrow> nat \<times> heap" where
  "createChildFromResolved h this ps =
     (length (injectors h),
      h\<lparr>injectors := injectors h @ [(ReflectiveInjector_new ps PNull)\<lparr>parent := PReflective this\<rparr>]\<rparr>)"

text \<open>
  The scan of \<^verbatim>\<open>getObjByKeyId\<close>: the first index, from \<open>i\<close> on, whose key id is
  \<open>keyId\<close>. The loop returns at that index, so nothing is written before it is found.
\<close>

fun findKeyId :: "nat list \<Rightarrow> nat \<Rightarrow> nat \<Rightarrow> nat option" where
  "findKeyId [] keyId i = None"
| "findKeyId (x # xs) keyId i = (if x = keyId then Some i else findKeyId xs keyId (Suc i))"

text \<open>Reading a JavaScript array out of range gives \<^verbatim>\<open>undefined\<close>, which is not
  \<^verbatim>\<open>UNDEFINED\<close>; writing out of range extends the array.\<close>

definition readSlot :: "slot list \<Rightarrow> nat \<Rightarrow> slot" where
  "readSlot xs i = (if i < length xs then xs ! i else Obj VUndefined)"

definition writeSlot :: "slot list \<Rightarrow> nat \<Rightarrow> slot \<Rightarrow> slot list" where
  "writeSlot xs i v =
     (if i < length xs then xs[i := v]
      else xs @ replicate (i - length xs) (Obj VUndefined) @ [v])"

definition setObj :: "heap \<Rightarrow> nat \<Rightarrow> nat \<Rightarrow> val \<Rightarrow> heap" where
  "setObj h a i v =
     h\<lparr>injectors := (injectors h)[a := (injectors h ! a)\<lparr>objs := writeSlot (objs (injectors h ! a)) i (Obj v)\<rparr>]\<rparr>"

definition incrCounter :: "heap \<Rightarrow> nat \<Rightarrow> heap" where
  "incrCounter h a =
     h\<lparr>injectors := (injectors h)[a := (injectors h ! a)\<lparr>constructionCounter := Suc (constructionCounter (injectors h ! a))\<rparr>]\<rparr>"

definition throwOrNull :: "nat \<Rightarrow> rkey \<Rightarrow> val \<Rightarrow> err + val" where
  "throwOrNull this k notFoundValue =
     (if notFoundValue \<noteq> THROW_IF_NOT_FOUND then Inr notFoundValue
      else Inl (noProviderError this k))"

section \<open>Resolution and lazy construction\<close>

text \<open>
  The methods of \<^verbatim>\<open>ReflectiveInjector_\<close> call each other recursively, through
  \<^verbatim>\<open>getByKey\<close>, and the recursion is bounded only by the construction counters, which
  are part of the store. The result of a call is \<open>None\<close> when it does not return;
  otherwise it is the exception thrown (\<open>Inl\<close>) or the value returned (\<open>Inr\<close>), with
  the store after the call. The argument \<open>this\<close> is the address of the injector.

  Every method but \<^verbatim>\<open>getByKey\<close> is written with the \<^verbatim>\<open>getByKey\<close> it calls as its
  first argument \<open>getByKey'\<close>; \<^verbatim>\<open>getByKey\<close> itself, at the end, closes the recursion
  with a fuel argument that bounds the depth of nested \<^verbatim>\<open>getByKey\<close> calls and the
  length of the walk up the parent chain (a store whose parent chain is a cycle has a walk
  that never ends). An address that is not in the store has no counterpart in the program;
  the model gives \<open>None\<close> there.
\<close>

type_synonym 'a outcome = "((err + 'a) \<times> heap) option"

type_synonym getByKey_fn = "heap \<Rightarrow> nat \<Rightarrow> rkey \<Rightarrow> visibility \<Rightarrow> val \<Rightarrow> val outcome"

text \<open>\<^verbatim>\<open>getByReflectiveDependency\<close>.\<close>

definition getByReflectiveDependency :: "getByKey_fn \<Rightarrow> heap \<Rightarrow> nat \<Rightarrow> dependency \<Rightarrow> val outcome" where
  "getByReflectiveDependency getByKey' h this dep =
     getByKey' h this (dkey dep) (visibility dep)
       (if optional dep then VNull else THROW_IF_NOT_FOUND)"

text \<open>\<^verbatim>\<open>dependencies.map((dep) => this.getByReflectiveDependency(dep))\<close>, left to right;
  the first exception ends it.\<close>

fun dependencies_map :: "getByKey_fn \<Rightarrow> heap \<Rightarrow> nat \<Rightarrow> dependency list \<Rightarrow> (val list) outcome" where
  "dependencies_map getByKey' h this [] = Some (Inr [], h)"
| "dependencies_map getByKey' h this (dep # ds) =
     (case getByReflectiveDependency getByKey' h this dep of
        None \<Rightarrow> None
      | Some (Inl e, h') \<Rightarrow> Some (Inl e, h')
      | Some (Inr v, h') \<Rightarrow>
          (case dependencies_map getByKey' h' this ds of
             None \<Rightarrow> None
           | Some (Inl e, h'') \<Rightarrow> Some (Inl e, h'')
           | Some (Inr vs, h'') \<Rightarrow> Some (Inr (v # vs), h'')))"

text \<open>
  \<^verbatim>\<open>instantiate\<close>: the factory call allocates at \<open>nextRef\<close>. In the second
  \<^verbatim>\<open>catch\<close>, \<^verbatim>\<open>e.stack\<close> is evaluated before \<^verbatim>\<open>instantiationError\<close> is called:
  when the factory threw \<^verbatim>\<open>null\<close> or \<^verbatim>\<open>undefined\<close>, that is a TypeError, which is
  what leaves \<^verbatim>\<open>instantiate\<close>.
\<close>

definition instantiate :: "getByKey_fn \<Rightarrow> heap \<Rightarrow> nat \<Rightarrow> provider \<Rightarrow> resolved_factory \<Rightarrow> val outcome" where
  "instantiate getByKey' h this p rf =
     (case dependencies_map getByKey' h this (dependencies rf) of
        None \<Rightarrow> None
      | Some (Inl e, h') \<Rightarrow> Some (Inl (addKey e this (key p)), h')
      | Some (Inr deps, h') \<Rightarrow>
          (case factory rf deps (nextRef h') of
             Inl e \<Rightarrow>
               (case e of
                  Thrown m stack \<Rightarrow>
                    Some (Inl (instantiationError this e stack (key p)),
                          h'\<lparr>nextRef := Suc (nextRef h')\<rparr>)
                | _ \<Rightarrow>
                    Some (Inl (Error ''TypeError''), h'\<lparr>nextRef := Suc (nextRef h')\<rparr>))
           | Inr obj \<Rightarrow> Some (Inr obj, h'\<lparr>nextRef := Suc (nextRef h')\<rparr>)))"

text \<open>The loop of \<^verbatim>\<open>instantiateProvider\<close> over the factories of a multi provider.\<close>

fun instantiateProvider_for :: "getByKey_fn \<Rightarrow> heap \<Rightarrow> nat \<Rightarrow> provider \<Rightarrow> resolved_factory list \<Rightarrow> (val list) outcome" where
  "instantiateProvider_for getByKey' h this p [] = Some (Inr [], h)"
| "instantiateProvider_for getByKey' h this p (rf # rfs) =
     (case instantiate getByKey' h this p rf of
        None \<Rightarrow> None
      | Some (Inl e, h') \<Rightarrow> Some (Inl e, h')
      | Some (Inr v, h') \<Rightarrow>
          (case instantiateProvider_for getByKey' h' this p rfs of
             None \<Rightarrow> None
           | Some (Inl e, h'') \<Rightarrow> Some (Inl e, h'')
           | Some (Inr vs, h'') \<Rightarrow> Some (Inr (v # vs), h'')))"

text \<open>
  \<^verbatim>\<open>instantiateProvider\<close>. The result array of a multi provider is allocated before
  the loop. With no factory at all, \<^verbatim>\<open>resolvedFactories[0]\<close> is \<^verbatim>\<open>undefined\<close> and
  reading its \<^verbatim>\<open>factory\<close> is a TypeError.
\<close>

definition instantiateProvider :: "getByKey_fn \<Rightarrow> heap \<Rightarrow> nat \<Rightarrow> provider \<Rightarrow> val outcome" where
  "instantiateProvider getByKey' h this p =
     (if multiProvider p then
        (case instantiateProvider_for getByKey' (h\<lparr>nextRef := Suc (nextRef h)\<rparr>) this p
                (resolvedFactories p) of
           None \<Rightarrow> None
         | Some (Inl e, h') \<Rightarrow> Some (Inl e, h')
         | Some (Inr res, h') \<Rightarrow> Some (Inr (VArray (nextRef h) res), h'))
      else
        (case resolvedFactories p of
           [] \<Rightarrow> Some (Inl (Error ''TypeError''), h)
         | rf # rest \<Rightarrow> instantiate getByKey' h this p rf))"

text \<open>\<^verbatim>\<open>new\<close>: \<^verbatim>\<open>constructionCounter++ > getMaxNumberOfObjects()\<close> compares the
  counter before the increment.\<close>

definition getMaxNumberOfObjects :: "injector \<Rightarrow> nat" where
  "getMaxNumberOfObjects i = length (objs i)"

definition new' :: "getByKey_fn \<Rightarrow> heap \<Rightarrow> nat \<Rightarrow> provider \<Rightarrow> val outcome" where
  "new' getByKey' h this p =
     (if this < length (injectors h) then
        (if constructionCounter (injectors h ! this) > getMaxNumberOfObjects (injectors h ! this)
         then Some (Inl (cyclicDependencyError this (key p)), incrCounter h this)
         else instantiateProvider getByKey' (incrCounter h this) this p)
      else None)"

text \<open>
  \<^verbatim>\<open>getObjByKeyId\<close>. \<^verbatim>\<open>providers[i]\<close> out of range is \<^verbatim>\<open>undefined\<close>, on which
  \<^verbatim>\<open>new\<close> ends in a TypeError after counting.
\<close>

definition getObjByKeyId :: "getByKey_fn \<Rightarrow> heap \<Rightarrow> nat \<Rightarrow> nat \<Rightarrow> slot outcome" where
  "getObjByKeyId getByKey' h this keyId =
     (if this < length (injectors h) then
        (case findKeyId (keyIds (injectors h ! this)) keyId 0 of
           None \<Rightarrow> Some (Inr UNDEFINED, h)
         | Some i \<Rightarrow>
             if readSlot (objs (injectors h ! this)) i = UNDEFINED then
               (if i < length (providers (injectors h ! this)) then
                  (case new' getByKey' h this (providers (injectors h ! this) ! i) of
                     None \<Rightarrow> None
                   | Some (Inl e, h') \<Rightarrow> Some (Inl e, h')
                   | Some (Inr v, h') \<Rightarrow> Some (Inr (Obj v), setObj h' this i v))
                else Some (Inl (Error ''TypeError''), incrCounter h this))
             else Some (Inr (readSlot (objs (injectors h ! this)) i), h))
      else None)"

text \<open>\<^verbatim>\<open>getByKeySelf\<close>.\<close>

definition getByKeySelf :: "getByKey_fn \<Rightarrow> heap \<Rightarrow> nat \<Rightarrow> rkey \<Rightarrow> val \<Rightarrow> val outcome" where
  "getByKeySelf getByKey' h this k notFoundValue =
     (case getObjByKeyId getByKey' h this (id' k) of
        None \<Rightarrow> None
      | Some (Inl e, h') \<Rightarrow> Some (Inl e, h')
      | Some (Inr (Obj obj), h') \<Rightarrow> Some (Inr obj, h')
      | Some (Inr UNDEFINED, h') \<Rightarrow> Some (throwOrNull this k notFoundValue, h'))"

text \<open>
  The \<^verbatim>\<open>while\<close> loop of \<^verbatim>\<open>getByKeyDefault\<close> and what follows it, from the injector
  \<open>inj'\<close> on; \<open>m\<close> bounds the number of iterations.
\<close>

fun getByKeyDefault_while :: "getByKey_fn \<Rightarrow> nat \<Rightarrow> heap \<Rightarrow> nat \<Rightarrow> parent_ref \<Rightarrow> rkey \<Rightarrow> val \<Rightarrow> val outcome" where
  "getByKeyDefault_while getByKey' m h this PNull k notFoundValue =
     Some (throwOrNull this k notFoundValue, h)"
| "getByKeyDefault_while getByKey' m h this PNullInjector k notFoundValue =
     Some (NullInjector_get (token k) notFoundValue, h)"
| "getByKeyDefault_while getByKey' 0 h this (PReflective a) k notFoundValue = None"
| "getByKeyDefault_while getByKey' (Suc m) h this (PReflective a) k notFoundValue =
     (case getObjByKeyId getByKey' h a (id' k) of
        None \<Rightarrow> None
      | Some (Inl e, h') \<Rightarrow> Some (Inl e, h')
      | Some (Inr (Obj obj), h') \<Rightarrow> Some (Inr obj, h')
      | Some (Inr UNDEFINED, h') \<Rightarrow>
          getByKeyDefault_while getByKey' m h' this (parent (injectors h' ! a)) k notFoundValue)"

definition getByKeyDefault :: "getByKey_fn \<Rightarrow> nat \<Rightarrow> heap \<Rightarrow> nat \<Rightarrow> rkey \<Rightarrow> val \<Rightarrow> visibility \<Rightarrow> val outcome" where
  "getByKeyDefault getByKey' m h this k notFoundValue vis =
     (if this < length (injectors h) then
        getByKeyDefault_while getByKey' m h this
          (if vis = SkipSelf then parent (injectors h ! this) else PReflective this)
          k notFoundValue
      else None)"

text \<open>\<^verbatim>\<open>getByKey\<close>, with fuel.\<close>

fun getByKey :: "nat \<Rightarrow> getByKey_fn" where
  "getByKey 0 = (\<lambda>h this k vis notFoundValue. None)"
| "getByKey (Suc n) = (\<lambda>h this k vis notFoundValue.
     if k = INJECTOR_KEY then Some (Inr (VInjector this), h)
     else if vis = Self then getByKeySelf (getByKey n) h this k notFoundValue
     else getByKeyDefault (getByKey n) n h this k notFoundValue vis)"

text \<open>
  \<^verbatim>\<open>get\<close>: the key of the token is looked up in, or added to, the global registry,
  which is the first component of the state here. The default value of
  \<^verbatim>\<open>notFoundValue\<close> is used when the argument is missing or \<^verbatim>\<open>undefined\<close>.
\<close>

definition get :: "nat \<Rightarrow> registry \<times> heap \<Rightarrow> nat \<Rightarrow> token \<Rightarrow> val \<Rightarrow> ((err + val) \<times> registry \<times> heap) option" where
  "get n w this tok notFoundValue0 =
     (let notFoundValue =
        (if notFoundValue0 = VUndefined then THROW_IF_NOT_FOUND else notFoundValue0)
      in case ReflectiveKey_get (fst w) tok of
           Inl e \<Rightarrow> Some (Inl e, w)
         | Inr (k, reg') \<Rightarrow>
             (case getByKey n (snd w) this k NoVisibility notFoundValue of
                None \<Rightarrow> None
              | Some (r, h') \<Rightarrow> Some (r, reg', h')))"

text \<open>\<^verbatim>\<open>instantiateResolved\<close>.\<close>

definition instantiateResolved :: "nat \<Rightarrow> heap \<Rightarrow> nat \<Rightarrow> provider \<Rightarrow> val outcome" where
  "instantiateResolved n h this p = instantiateProvider (getByKey n) h this p"

section \<open>Invariants of the store\<close>

text \<open>
  An index of \<^verbatim>\<open>keyIds\<close> is a first index when no lower index holds the same key
  id: the scan of \<^verbatim>\<open>getObjByKeyId\<close> can stop only there.
\<close>

definition isFirst :: "nat list \<Rightarrow> nat \<Rightarrow> bool" where
  "isFirst ks j = (j < length ks \<and> findKeyId ks (ks ! j) 0 = Some j)"

text \<open>
  Injectors form a tree: a child is created with a reference to an injector that exists,
  so the address of a parent is below the address of its child.
\<close>

definition wf_parents :: "heap \<Rightarrow> bool" where
  "wf_parents h =
     list_all (\<lambda>(a, i). case parent i of PReflective p \<Rightarrow> p < a | _ \<Rightarrow> True)
       (enumerate 0 (injectors h))"

text \<open>
  What a call may change in an injector: the counter grows, and only slots at first
  indices are written; the providers, the parent and the key ids stay.
\<close>

definition injector_frame :: "injector \<Rightarrow> injector \<Rightarrow> bool" where
  "injector_frame i i' =
     (providers i' = providers i \<and> parent i' = parent i \<and> keyIds i' = keyIds i
      \<and> constructionCounter i \<le> constructionCounter i'
      \<and> (length (objs i) = length (keyIds i) \<longrightarrow> length (objs i') = length (objs i))
      \<and> (\<forall>j. \<not> isFirst (keyIds i) j \<longrightarrow> readSlot (objs i') j = readSlot (objs i) j))"

text \<open>
  What a call on the injector \<open>this\<close> may change in the store: no injector is added,
  addresses are only handed out upwards, every injector changes as above, and in a tree
  the injectors above \<open>this\<close> (its descendants and unrelated ones) stay as they are.
\<close>

definition heap_frame :: "nat \<Rightarrow> heap \<Rightarrow> heap \<Rightarrow> bool" where
  "heap_frame this h h' =
     (length (injectors h') = length (injectors h) \<and> nextRef h \<le> nextRef h'
      \<and> (\<forall>a < length (injectors h). injector_frame (injectors h ! a) (injectors h' ! a))
      \<and> (wf_parents h \<longrightarrow>
           (\<forall>b. this < b \<and> b < length (injectors h) \<longrightarrow> injectors h' ! b = injectors h ! b)))"

definition frame_ok :: "getByKey_fn \<Rightarrow> bool" where
  "frame_ok g = (\<forall>h this k vis nf r h'. g h this k vis nf = Some (r, h') \<longrightarrow> heap_frame this h h')"

section \<open>Predicates used in the statements\<close>

text \<open>
  \<open>unbound_up m h keyId inj'\<close>: walking up from \<open>inj'\<close>, in at most \<open>m\<close> steps,
  no injector has a provider for \<open>keyId\<close>; the result is where the chain ends
  (\<^verbatim>\<open>null\<close> or a \<^verbatim>\<open>NullInjector\<close>).
\<close>

fun unbound_up :: "nat \<Rightarrow> heap \<Rightarrow> nat \<Rightarrow> parent_ref \<Rightarrow> parent_ref option" where
  "unbound_up m h keyId PNull = Some PNull"
| "unbound_up m h keyId PNullInjector = Some PNullInjector"
| "unbound_up 0 h keyId (PReflective a) = None"
| "unbound_up (Suc m) h keyId (PReflective a) =
     (if a < length (injectors h) \<and> findKeyId (keyIds (injectors h ! a)) keyId 0 = None
      then unbound_up m h keyId (parent (injectors h ! a)) else None)"


text \<open>The store before any injector is created.\<close>

definition emptyHeap :: heap where "emptyHeap = \<lparr>injectors = [], nextRef = 0\<rparr>"

section \<open>Example providers and stores\<close>

text \<open>
  Modelled from the spec: reflective\_provider.ts (\<^verbatim>\<open>resolve\<close>) is not among the
  sources. These are the resolved providers it yields for a class with the given
  dependencies (one factory, \<^verbatim>\<open>new\<close> on the class, default visibility, not optional),
  for a fixed value (a factory without dependencies that returns the value), and for a
  factory that throws.
\<close>


definition exampleKey :: "string \<Rightarrow> nat \<Rightarrow> rkey" where
  "exampleKey name i = \<lparr>token = TClass name, id' = i, displayName = name\<rparr>"

definition simpleDependency :: "rkey \<Rightarrow> dependency" where
  "simpleDependency k = \<lparr>dkey = k, optional = False, visibility = NoVisibility\<rparr>"

definition classProvider :: "rkey \<Rightarrow> rkey list \<Rightarrow> provider" where
  "classProvider k ds =
     \<lparr>key = k,
      resolvedFactories = [\<lparr>factory = reflection_factory, dependencies = map simpleDependency ds\<rparr>],
      multiProvider = False\<rparr>"

definition valueProvider :: "rkey \<Rightarrow> val \<Rightarrow> provider" where
  "valueProvider k v =
     \<lparr>key = k, resolvedFactories = [\<lparr>factory = (\<lambda>args a. Inr v), dependencies = []\<rparr>],
      multiProvider = False\<rparr>"

definition throwingProvider :: "rkey \<Rightarrow> thrown \<Rightarrow> provider" where
  "throwingProvider k e =
     \<lparr>key = k, resolvedFactories = [\<lparr>factory = (\<lambda>args a. Inl e), dependencies = []\<rparr>],
      multiProvider = False\<rparr>"

text \<open>
  An injector with the provider of \<^verbatim>\<open>Engine\<close> and no parent, in a store where the
  caller has allocated one object; the registry after \<^verbatim>\<open>Engine\<close> and \<^verbatim>\<open>Car\<close> were
  resolved; and the store after \<^verbatim>\<open>get(Engine)\<close>.
\<close>

definition engineHeap :: heap where
  "engineHeap =
     snd (fromResolvedProviders (emptyHeap\<lparr>nextRef := 1\<rparr>)
            [classProvider (exampleKey ''Engine'' 1) []] PNull)"

definition exampleRegistry :: registry where
  "exampleRegistry =
     globalKeyRegistry_init @
       [(TClass ''Engine'', exampleKey ''Engine'' 1), (TClass ''Car'', exampleKey ''Car'' 2)]"

definition engineBuiltHeap :: heap where
  "engineBuiltHeap = (setObj (incrCounter engineHeap 0) 0 0 (VRef 1))\<lparr>nextRef := 2\<rparr>"

text \<open>The store after a child with a provider of \<^verbatim>\<open>Car\<close> (without dependencies) is created from the injector of \<^verbatim>\<open>Engine\<close>.\<close>

definition childHeap :: heap where
  "childHeap = snd (createChildFromResolved engineHeap 0 [classProvider (exampleKey ''Car'' 2) []])"

text \<open>A child with its own provider of \<^verbatim>\<open>Engine\<close>, created from the injector of \<^verbatim>\<open>Engine\<close>; a dependency on \<^verbatim>\<open>Engine\<close> with a given visibility.\<close>

definition twoEngineHeap :: heap where
  "twoEngineHeap = snd (createChildFromResolved engineHeap 0 [classProvider (exampleKey ''Engine'' 1) []])"

definition engineDependency :: "visibility \<Rightarrow> dependency" where
  "engineDependency vis = \<lparr>dkey = exampleKey ''Engine'' 1, optional = False, visibility = vis\<rparr>"

text \<open>
  \<open>reachable h h'\<close>: the store \<open>h'\<close> results from \<open>h\<close> by any number of calls of
  \<^verbatim>\<open>getByKey\<close> (which \<^verbatim>\<open>get\<close> is, on the key of its token) and
  \<^verbatim>\<open>instantiateResolved\<close>, on any injectors, that returned or threw.
\<close>

inductive reachable :: "heap \<Rightarrow> heap \<Rightarrow> bool" where
  reachable_refl: "reachable h h"
| reachable_getByKey:
    "reachable h h1 \<Longrightarrow> getByKey n h1 this k vis nf = Some (r, h2) \<Longrightarrow> reachable h h2"
| reachable_instantiateResolved:
    "reachable h h1 \<Longrightarrow> instantiateResolved n h1 this p = Some (r, h2) \<Longrightarrow> reachable h h2"

text \<open>A second resolved provider for the key of \<^verbatim>\<open>Engine\<close>, and an injector made of both.\<close>

definition duplicateProvider :: provider where
  "duplicateProvider =
     \<lparr>key = exampleKey ''Engine'' 1,
      resolvedFactories = [\<lparr>factory = (\<lambda>args a. Inr (VStr ''second'')), dependencies = []\<rparr>],
      multiProvider = False\<rparr>"

definition duplicateHeap :: heap where
  "duplicateHeap =
     snd (fromResolvedProviders (emptyHeap\<lparr>nextRef := 1\<rparr>)
            [classProvider (exampleKey ''Engine'' 1) [], duplicateProvider] PNull)"

text \<open>
  An injector whose only provider has a factory that throws an error object, one whose
  only provider has a factory that throws \<^verbatim>\<open>null\<close>, and one with the first provider
  and a provider of \<^verbatim>\<open>Car\<close> that depends on it.
\<close>

definition throwingHeap :: heap where
  "throwingHeap =
     snd (fromResolvedProviders emptyHeap
            [throwingProvider (exampleKey ''Engine'' 1) (Thrown ''boom'' (Some ''at Engine''))] PNull)"

definition nullThrowingHeap :: heap where
  "nullThrowingHeap =
     snd (fromResolvedProviders emptyHeap [throwingProvider (exampleKey ''Engine'' 1) ThrownNull] PNull)"

definition failingCarHeap :: heap where
  "failingCarHeap =
     snd (fromResolvedProviders emptyHeap
            [throwingProvider (exampleKey ''Engine'' 1) (Thrown ''boom'' (Some ''at Engine'')),
             classProvider (exampleKey ''Car'' 2) [exampleKey ''Engine'' 1]] PNull)"

text \<open>
  \<open>cyclic_in i K\<close>: every key id of \<open>K\<close> has a provider in the injector \<open>i\<close>,
  not yet constructed, and the first dependency of the first factory of that provider is
  again a key of \<open>K\<close>, looked up in the injector itself (not \<^verbatim>\<open>SkipSelf\<close>). A provider
  that depends on itself is \<open>K = [A]\<close>; two that depend on each other are \<open>K = [A, B]\<close>.
\<close>

definition dependsInto :: "nat list \<Rightarrow> provider \<Rightarrow> bool" where
  "dependsInto K p =
     (case resolvedFactories p of
        [] \<Rightarrow> False
      | rf # rest \<Rightarrow>
          (case dependencies rf of
             [] \<Rightarrow> False
           | dep # ds \<Rightarrow>
               id' (dkey dep) \<in> set K \<and> dkey dep \<noteq> INJECTOR_KEY \<and> visibility dep \<noteq> SkipSelf))"

definition cyclic_in :: "injector \<Rightarrow> nat list \<Rightarrow> bool" where
  "cyclic_in i K =
     list_all (\<lambda>keyId.
        case findKeyId (keyIds i) keyId 0 of
          None \<Rightarrow> False
        | Some j \<Rightarrow> j < length (providers i) \<and> readSlot (objs i) j = UNDEFINED
                    \<and> dependsInto K (providers i ! j)) K"

text \<open>The error is a cyclic-dependency error, whatever keys were added to it.\<close>

fun is_cyclic :: "err \<Rightarrow> bool" where
  "is_cyclic (InjectionError kind ks injs) = (kind = CyclicDependency)"
| "is_cyclic (Error m) = False"

text \<open>Two providers that depend on each other, and one that depends on itself.\<close>

definition cycleRegistry :: registry where
  "cycleRegistry =
     globalKeyRegistry_init @ [(TClass ''A'', exampleKey ''A'' 1), (TClass ''B'', exampleKey ''B'' 2)]"

definition mutualHeap :: heap where
  "mutualHeap =
     snd (fromResolvedProviders emptyHeap
            [classProvider (exampleKey ''A'' 1) [exampleKey ''B'' 2],
             classProvider (exampleKey ''B'' 2) [exampleKey ''A'' 1]] PNull)"

definition selfHeap :: heap where
  "selfHeap =
     snd (fromResolvedProviders emptyHeap
            [classProvider (exampleKey ''A'' 1) [exampleKey ''A'' 1]] PNull)"

text \<open>
  \<open>resolves_only n this ds h h'\<close>: the store \<open>h'\<close> results from \<open>h\<close> by allocating
  addresses and by resolving dependencies of the list \<open>ds\<close> on the injector \<open>this\<close>,
  as \<^verbatim>\<open>getByReflectiveDependency\<close> does, and by nothing else.
\<close>

inductive resolves_only :: "nat \<Rightarrow> nat \<Rightarrow> dependency list \<Rightarrow> heap \<Rightarrow> heap \<Rightarrow> bool"
  for n :: nat and this :: nat and ds :: "dependency list" where
  resolves_refl: "resolves_only n this ds h h"
| resolves_alloc:
    "resolves_only n this ds h h1 \<Longrightarrow> resolves_only n this ds h (h1\<lparr>nextRef := Suc (nextRef h1)\<rparr>)"
| resolves_dep:
    "resolves_only n this ds h h1 \<Longrightarrow> dep \<in> set ds \<Longrightarrow>
     getByReflectiveDependency (getByKey n) h1 this dep = Some (r, h2) \<Longrightarrow>
     resolves_only n this ds h h2"

section \<open>Properties of the key registry\<close>

lemma wf_registry_init: "wf_registry globalKeyRegistry_init"
  by (simp add: wf_registry_def globalKeyRegistry_init_def INJECTOR_KEY_def)

lemma ReflectiveKey_get_cases:
  assumes "ReflectiveKey_get reg tok = Inr (k, reg')"
  shows "(\<exists>t i d. tok = TKey t i d \<and> k = \<lparr>token = t, id' = i, displayName = d\<rparr> \<and> reg' = reg)
       \<or> ((\<forall>t i d. tok \<noteq> TKey t i d) \<and> map_of reg tok = Some k \<and> reg' = reg)
       \<or> ((\<forall>t i d. tok \<noteq> TKey t i d) \<and> map_of reg tok = None \<and> \<not> falsy tok
            \<and> k = \<lparr>token = tok, id' = length reg, displayName = stringify tok\<rparr>
            \<and> reg' = reg @ [(tok, k)])"
  using assms
  by (cases tok; cases "map_of reg tok")
     (auto simp: ReflectiveKey_get_def KeyRegistry_get_def ReflectiveKey_new_def numberOfKeys_def
           split: if_splits)

lemma ReflectiveKey_get_hit:
  "(\<forall>t i d. tok \<noteq> TKey t i d) \<Longrightarrow> map_of reg tok = Some k \<Longrightarrow>
   ReflectiveKey_get reg tok = Inr (k, reg)"
  by (cases tok) (auto simp: ReflectiveKey_get_def KeyRegistry_get_def)

lemma map_of_snoc_new: "map_of reg t = None \<Longrightarrow> map_of (reg @ [(t, k)]) t = Some k"
  by (simp add: map_add_Some_iff)

lemma wf_registry_lookup_id:
  assumes "wf_registry reg" "map_of reg t = Some k"
  shows "id' k < length reg \<and> reg ! id' k = (t, k)"
proof -
  from assms(2) have "(t, k) \<in> set reg" by (rule map_of_SomeD)
  then obtain i where i: "i < length reg" "reg ! i = (t, k)" by (auto simp: in_set_conv_nth)
  from assms(1) have "map (\<lambda>p. id' (snd p)) reg ! i = [0..<length reg] ! i"
    by (simp add: wf_registry_def)
  with i have "id' k = i" by simp
  with i show ?thesis by simp
qed

text \<open>
  C6. On a registry that satisfies the invariant, a lookup that returns a key returns the
  same key, and leaves the registry as it is, when it is repeated; a token that is a key
  is returned unchanged; a token that was not registered gets the number of keys as its
  id and is appended; the invariant is kept (ids dense), earlier registrations are kept
  (append-only), and different tokens have different ids.
\<close>

theorem KeyRegistry_get_idempotent_dense:
  assumes wf: "wf_registry reg" and g: "ReflectiveKey_get reg tok = Inr (k, reg')"
  shows "ReflectiveKey_get reg' tok = Inr (k, reg')
       \<and> (\<forall>t i d. ReflectiveKey_get reg (TKey t i d) = Inr (\<lparr>token = t, id' = i, displayName = d\<rparr>, reg))
       \<and> ((\<forall>t i d. tok \<noteq> TKey t i d) \<and> map_of reg tok = None \<longrightarrow>
            id' k = numberOfKeys reg \<and> reg' = reg @ [(tok, k)]
            \<and> numberOfKeys reg' = Suc (numberOfKeys reg))
       \<and> wf_registry reg'
       \<and> (\<forall>t k0. map_of reg t = Some k0 \<longrightarrow> map_of reg' t = Some k0)
       \<and> (\<forall>t1 t2 k1 k2. map_of reg' t1 = Some k1 \<and> map_of reg' t2 = Some k2 \<and> t1 \<noteq> t2
            \<longrightarrow> id' k1 \<noteq> id' k2)"
proof -
  note c = ReflectiveKey_get_cases[OF g]
  have 1: "ReflectiveKey_get reg' tok = Inr (k, reg')"
    using c
  proof (elim disjE exE conjE)
    fix t i d
    assume "tok = TKey t i d" "k = \<lparr>token = t, id' = i, displayName = d\<rparr>" "reg' = reg"
    then show ?thesis by (simp add: ReflectiveKey_get_def KeyRegistry_get_def)
  next
    assume "\<forall>t i d. tok \<noteq> TKey t i d" "map_of reg tok = Some k" "reg' = reg"
    then show ?thesis by (simp add: ReflectiveKey_get_hit)
  next
    assume a: "\<forall>t i d. tok \<noteq> TKey t i d" "map_of reg tok = None" "reg' = reg @ [(tok, k)]"
    from map_of_snoc_new[OF a(2)] a(3) have "map_of reg' tok = Some k" by simp
    with a(1) show ?thesis by (rule ReflectiveKey_get_hit)
  qed
  have 2: "\<forall>t i d. ReflectiveKey_get reg (TKey t i d) = Inr (\<lparr>token = t, id' = i, displayName = d\<rparr>, reg)"
    by (simp add: ReflectiveKey_get_def KeyRegistry_get_def)
  have 3: "(\<forall>t i d. tok \<noteq> TKey t i d) \<and> map_of reg tok = None \<longrightarrow>
           id' k = numberOfKeys reg \<and> reg' = reg @ [(tok, k)]
           \<and> numberOfKeys reg' = Suc (numberOfKeys reg)"
    using c by (auto simp: numberOfKeys_def)
  have wf': "wf_registry reg'"
    using c wf by (auto simp: wf_registry_def map_of_eq_None_iff)
  have 5: "\<forall>t k0. map_of reg t = Some k0 \<longrightarrow> map_of reg' t = Some k0"
    using c by (auto simp: map_add_Some_iff)
  have 6: "\<forall>t1 t2 k1 k2. map_of reg' t1 = Some k1 \<and> map_of reg' t2 = Some k2 \<and> t1 \<noteq> t2
            \<longrightarrow> id' k1 \<noteq> id' k2"
  proof (intro allI impI, elim conjE)
    fix t1 t2 k1 k2
    assume a: "map_of reg' t1 = Some k1" "map_of reg' t2 = Some k2" "t1 \<noteq> t2"
    from wf_registry_lookup_id[OF wf' a(1)] wf_registry_lookup_id[OF wf' a(2)] a(3)
    show "id' k1 \<noteq> id' k2" by auto
  qed
  from 1 2 3 wf' 5 6 show ?thesis by blast
qed

theorem KeyRegistry_get_idempotent_dense_witness:
  "wf_registry globalKeyRegistry_init
   \<and> ReflectiveKey_get globalKeyRegistry_init (TClass ''Car'')
       = Inr (\<lparr>token = TClass ''Car'', id' = 1, displayName = ''Car''\<rparr>,
              globalKeyRegistry_init @ [(TClass ''Car'', \<lparr>token = TClass ''Car'', id' = 1, displayName = ''Car''\<rparr>)])
   \<and> ReflectiveKey_get
        (globalKeyRegistry_init @ [(TClass ''Car'', \<lparr>token = TClass ''Car'', id' = 1, displayName = ''Car''\<rparr>)])
        (TClass ''Car'')
       = Inr (\<lparr>token = TClass ''Car'', id' = 1, displayName = ''Car''\<rparr>,
              globalKeyRegistry_init @ [(TClass ''Car'', \<lparr>token = TClass ''Car'', id' = 1, displayName = ''Car''\<rparr>)])"
proof -
  have g: "ReflectiveKey_get globalKeyRegistry_init (TClass ''Car'')
       = Inr (\<lparr>token = TClass ''Car'', id' = 1, displayName = ''Car''\<rparr>,
              globalKeyRegistry_init @ [(TClass ''Car'', \<lparr>token = TClass ''Car'', id' = 1, displayName = ''Car''\<rparr>)])"
    by (simp add: ReflectiveKey_get_def KeyRegistry_get_def ReflectiveKey_new_def
          numberOfKeys_def globalKeyRegistry_init_def)
  from KeyRegistry_get_idempotent_dense[OF wf_registry_init g] wf_registry_init g
  show ?thesis by blast
qed

section \<open>Properties of key construction\<close>

text \<open>
  C9, as the code has it. Constructing a key for a falsy token (\<^verbatim>\<open>null\<close>,
  \<^verbatim>\<open>undefined\<close>, 0, the empty string, \<^verbatim>\<open>false\<close>) fails with the plain error
  "Token must be defined!", which does not carry the token; for every other token it
  succeeds, and the key has the token, the id given, and the display name of the token.
\<close>

theorem ReflectiveKey_new_falsy_truthy:
  "(tok \<in> {TNull, TUndefined, TNum 0, TStr [], TBool False} \<longrightarrow>
      ReflectiveKey_new tok i = Inl (Error ''Token must be defined!''))
   \<and> (tok \<notin> {TNull, TUndefined, TNum 0, TStr [], TBool False} \<longrightarrow>
      (\<exists>k. ReflectiveKey_new tok i = Inr k \<and> token k = tok \<and> id' k = i
           \<and> displayName k = stringify tok))"
  by (cases tok) (auto simp: ReflectiveKey_new_def)

theorem ReflectiveKey_new_falsy_truthy_witness:
  "ReflectiveKey_new TNull 3 = Inl (Error ''Token must be defined!'')
   \<and> (\<exists>k. ReflectiveKey_new (TClass ''Car'') 3 = Inr k \<and> token k = TClass ''Car'' \<and> id' k = 3
          \<and> displayName k = stringify (TClass ''Car''))"
  using ReflectiveKey_new_falsy_truthy[of TNull 3] ReflectiveKey_new_falsy_truthy[of "TClass ''Car''" 3]
  by simp

text \<open>
  The error of a falsy token is the same whatever the token: the failure for 0 and the
  failure for the empty string are equal, so the token is not part of it.
\<close>

theorem ReflectiveKey_new_error_without_token:
  "ReflectiveKey_new (TNum 0) 3 = Inl (Error ''Token must be defined!'')
   \<and> ReflectiveKey_new (TStr []) 3 = Inl (Error ''Token must be defined!'')"
  by (simp add: ReflectiveKey_new_def)

section \<open>The frame of a call\<close>

lemma findKeyId_Some_aux:
  "findKeyId ks k i = Some j \<Longrightarrow> i \<le> j \<and> j - i < length ks \<and> ks ! (j - i) = k \<and> (\<forall>l < j - i. ks ! l \<noteq> k)"
proof (induction ks arbitrary: i)
  case Nil then show ?case by simp
next
  case (Cons x xs)
  show ?case
  proof (cases "x = k")
    case True with Cons.prems show ?thesis by simp
  next
    case False
    with Cons.prems have f: "findKeyId xs k (Suc i) = Some j" by simp
    from Cons.IH[OF f] have a: "Suc i \<le> j" "j - Suc i < length xs" "xs ! (j - Suc i) = k"
      "\<forall>l < j - Suc i. xs ! l \<noteq> k" by auto
    from a(1) have e: "j - i = Suc (j - Suc i)" by simp
    show ?thesis using a False unfolding e by (auto simp: nth_Cons split: nat.splits)
  qed
qed

lemma findKeyId_Some:
  "findKeyId ks k 0 = Some j \<Longrightarrow> j < length ks \<and> ks ! j = k \<and> (\<forall>l < j. ks ! l \<noteq> k)"
  using findKeyId_Some_aux[of ks k 0 j] by simp

lemma findKeyId_None: "findKeyId ks k i = None \<longleftrightarrow> k \<notin> set ks"
  by (induction ks arbitrary: i) auto

lemma findKeyId_isFirst: "findKeyId ks k 0 = Some j \<Longrightarrow> isFirst ks j"
  using findKeyId_Some[of ks k j] by (simp add: isFirst_def)

lemma readSlot_writeSlot_same [simp]: "readSlot (writeSlot xs i s) i = s"
  by (simp add: readSlot_def writeSlot_def nth_append)

lemma readSlot_writeSlot_other: "j \<noteq> i \<Longrightarrow> readSlot (writeSlot xs i s) j = readSlot xs j"
  by (auto simp: readSlot_def writeSlot_def nth_append nth_Cons split: nat.splits)

lemma length_writeSlot: "i < length xs \<Longrightarrow> length (writeSlot xs i s) = length xs"
  by (simp add: writeSlot_def)

lemma wf_parents_iff:
  "wf_parents h \<longleftrightarrow> (\<forall>a < length (injectors h). \<forall>p. parent (injectors h ! a) = PReflective p \<longrightarrow> p < a)"
  by (auto simp: wf_parents_def list_all_length nth_enumerate_eq split: parent_ref.splits)

lemma injector_frame_refl [simp]: "injector_frame i i"
  by (simp add: injector_frame_def)

lemma injector_frame_trans:
  "injector_frame i1 i2 \<Longrightarrow> injector_frame i2 i3 \<Longrightarrow> injector_frame i1 i3"
  by (auto simp: injector_frame_def)

lemma heap_frame_refl [simp]: "heap_frame this h h"
  by (simp add: heap_frame_def)

lemma heap_frame_wf_parents: "heap_frame this h h' \<Longrightarrow> wf_parents h' = wf_parents h"
  by (auto simp: heap_frame_def wf_parents_iff injector_frame_def)

lemma heap_frame_trans:
  assumes "heap_frame this h1 h2" "heap_frame this h2 h3"
  shows "heap_frame this h1 h3"
proof -
  from assms(1) have w: "wf_parents h2 = wf_parents h1" by (rule heap_frame_wf_parents)
  show ?thesis
    using assms w unfolding heap_frame_def
    by (auto intro: injector_frame_trans)
qed

lemma heap_frame_mono: "heap_frame a h h' \<Longrightarrow> a \<le> this \<Longrightarrow> heap_frame this h h'"
  by (auto simp: heap_frame_def)

lemma nth_update_fun:
  "a < length xs \<Longrightarrow> (xs[i := y]) ! a = (if a = i then y else xs ! a)"
  by auto

lemma heap_frame_incrCounter: "heap_frame this h (incrCounter h this)"
  by (auto simp: heap_frame_def incrCounter_def injector_frame_def nth_update_fun)

lemma heap_frame_nextRef: "heap_frame this h (h\<lparr>nextRef := Suc (nextRef h)\<rparr>)"
  by (auto simp: heap_frame_def)

lemma heap_frame_setObj:
  assumes "findKeyId (keyIds (injectors h ! this)) kid 0 = Some i"
  shows "heap_frame this h (setObj h this i v)"
proof -
  from findKeyId_isFirst[OF assms] have f: "isFirst (keyIds (injectors h ! this)) i" .
  then have l: "i < length (keyIds (injectors h ! this))" by (simp add: isFirst_def)
  have r: "\<And>j. \<not> isFirst (keyIds (injectors h ! this)) j \<Longrightarrow>
      readSlot (writeSlot (objs (injectors h ! this)) i (Obj v)) j = readSlot (objs (injectors h ! this)) j"
    using f by (intro readSlot_writeSlot_other) auto
  show ?thesis
    using l r
    by (auto simp: heap_frame_def setObj_def injector_frame_def nth_update_fun length_writeSlot)
qed

lemma frame_okD: "frame_ok g \<Longrightarrow> g h this k vis nf = Some (r, h') \<Longrightarrow> heap_frame this h h'"
  unfolding frame_ok_def by blast

lemma dependencies_map_frame:
  assumes g: "frame_ok g"
  shows "dependencies_map g h this ds = Some (r, h') \<Longrightarrow> heap_frame this h h'"
proof (induction ds arbitrary: h r h')
  case Nil
  then show ?case by simp
next
  case (Cons dep ds)
  from Cons.prems obtain r1 h1 where
    1: "getByReflectiveDependency g h this dep = Some (r1, h1)"
    by (auto split: option.splits)
  then have f1: "heap_frame this h h1"
    using g by (auto simp: getByReflectiveDependency_def dest: frame_okD)
  show ?case
  proof (cases r1)
    case (Inl e)
    with Cons.prems 1 have "h' = h1" by simp
    with f1 show ?thesis by simp
  next
    case (Inr v)
    with Cons.prems 1 obtain r2 where "dependencies_map g h1 this ds = Some (r2, h')"
      by (auto split: option.splits sum.splits)
    from Cons.IH[OF this] f1 show ?thesis by (rule heap_frame_trans[rotated])
  qed
qed

lemma instantiate_frame:
  assumes g: "frame_ok g" and i: "instantiate g h this p rf = Some (r, h')"
  shows "heap_frame this h h'"
proof -
  from i obtain r1 h1 where 1: "dependencies_map g h this (dependencies rf) = Some (r1, h1)"
    by (auto simp: instantiate_def split: option.splits)
  from dependencies_map_frame[OF g 1] have f1: "heap_frame this h h1" .
  from i 1 have "h' = h1 \<or> h' = h1\<lparr>nextRef := Suc (nextRef h1)\<rparr>"
    by (auto simp: instantiate_def split: sum.splits thrown.splits)
  then show ?thesis
    using f1 heap_frame_trans[OF f1 heap_frame_nextRef] by auto
qed

lemma instantiateProvider_for_frame:
  assumes g: "frame_ok g"
  shows "instantiateProvider_for g h this p rfs = Some (r, h') \<Longrightarrow> heap_frame this h h'"
proof (induction rfs arbitrary: h r h')
  case Nil
  then show ?case by simp
next
  case (Cons rf rfs)
  from Cons.prems obtain r1 h1 where 1: "instantiate g h this p rf = Some (r1, h1)"
    by (auto split: option.splits)
  from instantiate_frame[OF g 1] have f1: "heap_frame this h h1" .
  show ?case
  proof (cases r1)
    case (Inl e)
    with Cons.prems 1 have "h' = h1" by simp
    with f1 show ?thesis by simp
  next
    case (Inr v)
    with Cons.prems 1 obtain r2 where "instantiateProvider_for g h1 this p rfs = Some (r2, h')"
      by (auto split: option.splits sum.splits)
    from Cons.IH[OF this] f1 show ?thesis by (rule heap_frame_trans[rotated])
  qed
qed

lemma instantiateProvider_frame:
  assumes g: "frame_ok g" and i: "instantiateProvider g h this p = Some (r, h')"
  shows "heap_frame this h h'"
proof (cases "multiProvider p")
  case True
  with i obtain r1 where
    "instantiateProvider_for g (h\<lparr>nextRef := Suc (nextRef h)\<rparr>) this p (resolvedFactories p) = Some (r1, h')"
    by (auto simp: instantiateProvider_def split: option.splits sum.splits)
  from instantiateProvider_for_frame[OF g this] show ?thesis
    by (rule heap_frame_trans[OF heap_frame_nextRef])
next
  case False
  show ?thesis
  proof (cases "resolvedFactories p")
    case Nil
    with False i show ?thesis by (simp add: instantiateProvider_def)
  next
    case (Cons rf rest)
    with False i have "instantiate g h this p rf = Some (r, h')"
      by (simp add: instantiateProvider_def)
    from instantiate_frame[OF g this] show ?thesis .
  qed
qed

lemma new'_frame:
  assumes g: "frame_ok g" and i: "new' g h this p = Some (r, h')"
  shows "heap_frame this h h'"
proof (cases "constructionCounter (injectors h ! this) > getMaxNumberOfObjects (injectors h ! this)")
  case True
  with i have "h' = incrCounter h this" by (auto simp: new'_def split: if_splits)
  then show ?thesis by (simp add: heap_frame_incrCounter)
next
  case False
  with i have "instantiateProvider g (incrCounter h this) this p = Some (r, h')"
    by (auto simp: new'_def split: if_splits)
  from instantiateProvider_frame[OF g this] show ?thesis
    by (rule heap_frame_trans[OF heap_frame_incrCounter])
qed

lemma heap_frame_keyIds:
  "heap_frame this h h' \<Longrightarrow> a < length (injectors h) \<Longrightarrow>
   keyIds (injectors h' ! a) = keyIds (injectors h ! a)
   \<and> parent (injectors h' ! a) = parent (injectors h ! a)
   \<and> providers (injectors h' ! a) = providers (injectors h ! a)"
  by (simp add: heap_frame_def injector_frame_def)

text \<open>The five ways in which \<^verbatim>\<open>getObjByKeyId\<close> returns.\<close>

lemma getObjByKeyId_cases:
  assumes "getObjByKeyId g h this keyId = Some (r, h')"
  shows "this < length (injectors h) \<and>
    ((findKeyId (keyIds (injectors h ! this)) keyId 0 = None \<and> r = Inr UNDEFINED \<and> h' = h)
     \<or> (\<exists>i v. findKeyId (keyIds (injectors h ! this)) keyId 0 = Some i
           \<and> readSlot (objs (injectors h ! this)) i = Obj v \<and> r = Inr (Obj v) \<and> h' = h)
     \<or> (\<exists>i. findKeyId (keyIds (injectors h ! this)) keyId 0 = Some i
           \<and> readSlot (objs (injectors h ! this)) i = UNDEFINED
           \<and> \<not> i < length (providers (injectors h ! this))
           \<and> r = Inl (Error ''TypeError'') \<and> h' = incrCounter h this)
     \<or> (\<exists>i e. findKeyId (keyIds (injectors h ! this)) keyId 0 = Some i
           \<and> readSlot (objs (injectors h ! this)) i = UNDEFINED
           \<and> i < length (providers (injectors h ! this))
           \<and> new' g h this (providers (injectors h ! this) ! i) = Some (Inl e, h') \<and> r = Inl e)
     \<or> (\<exists>i v h1. findKeyId (keyIds (injectors h ! this)) keyId 0 = Some i
           \<and> readSlot (objs (injectors h ! this)) i = UNDEFINED
           \<and> i < length (providers (injectors h ! this))
           \<and> new' g h this (providers (injectors h ! this) ! i) = Some (Inr v, h1)
           \<and> r = Inr (Obj v) \<and> h' = setObj h1 this i v))"
  using assms
  by (cases "readSlot (objs (injectors h ! this)) (the (findKeyId (keyIds (injectors h ! this)) keyId 0))")
     (auto simp: getObjByKeyId_def split: if_splits option.splits sum.splits)

lemma getObjByKeyId_frame:
  assumes g: "frame_ok g" and i: "getObjByKeyId g h this keyId = Some (r, h')"
  shows "heap_frame this h h'"
  using getObjByKeyId_cases[OF i]
proof (elim conjE disjE exE)
  fix i v h1
  assume a: "this < length (injectors h)"
    "findKeyId (keyIds (injectors h ! this)) keyId 0 = Some i"
    "new' g h this (providers (injectors h ! this) ! i) = Some (Inr v, h1)"
    "h' = setObj h1 this i v"
  from new'_frame[OF g a(3)] have f1: "heap_frame this h h1" .
  from heap_frame_keyIds[OF f1 a(1)] a(2)
  have "findKeyId (keyIds (injectors h1 ! this)) keyId 0 = Some i" by simp
  from heap_frame_setObj[OF this] a(4) have "heap_frame this h1 h'" by simp
  with f1 show ?thesis by (rule heap_frame_trans)
qed (auto simp: heap_frame_incrCounter dest: new'_frame[OF g])

lemma getByKeySelf_cases:
  assumes "getByKeySelf g h this k nf = Some (r, h')"
  shows "(\<exists>e. getObjByKeyId g h this (id' k) = Some (Inl e, h') \<and> r = Inl e)
       \<or> (\<exists>v. getObjByKeyId g h this (id' k) = Some (Inr (Obj v), h') \<and> r = Inr v)
       \<or> (getObjByKeyId g h this (id' k) = Some (Inr UNDEFINED, h') \<and> r = throwOrNull this k nf)"
  using assms
  by (auto simp: getByKeySelf_def split: option.splits sum.splits slot.splits)

lemma getByKeySelf_frame:
  assumes g: "frame_ok g" and i: "getByKeySelf g h this k nf = Some (r, h')"
  shows "heap_frame this h h'"
  using getByKeySelf_cases[OF i] by (auto dest: getObjByKeyId_frame[OF g])

lemma getObjByKeyId_UNDEFINED:
  assumes "getObjByKeyId g h a keyId = Some (Inr UNDEFINED, h')"
  shows "h' = h \<and> a < length (injectors h) \<and> findKeyId (keyIds (injectors h ! a)) keyId 0 = None"
  using getObjByKeyId_cases[OF assms] by auto

lemma getByKeyDefault_while_frame:
  assumes g: "frame_ok g"
  shows "getByKeyDefault_while g m h this inj' k nf = Some (r, h') \<Longrightarrow>
         (\<forall>a. inj' = PReflective a \<longrightarrow> wf_parents h \<longrightarrow> a < length (injectors h) \<longrightarrow> a \<le> t) \<Longrightarrow>
         heap_frame t h h'"
proof (induction m arbitrary: inj')
  case 0
  then show ?case by (cases inj') auto
next
  case (Suc m)
  show ?case
  proof (cases inj')
    case PNull
    with Suc.prems show ?thesis by simp
  next
    case PNullInjector
    with Suc.prems show ?thesis by simp
  next
    case (PReflective a)
    from Suc.prems(1) PReflective obtain r1 h1 where
      1: "getObjByKeyId g h a (id' k) = Some (r1, h1)"
      by (auto split: option.splits)
    from getObjByKeyId_cases[OF 1] have al: "a < length (injectors h)" by simp
    from getObjByKeyId_frame[OF g 1] have fa: "heap_frame a h h1" .
    have up: "wf_parents h \<Longrightarrow> a \<le> t" using Suc.prems(2) PReflective al by simp
    have f1: "heap_frame t h h1"
    proof (cases "wf_parents h")
      case True
      with up fa show ?thesis by (auto intro: heap_frame_mono)
    next
      case False
      with fa show ?thesis by (simp add: heap_frame_def)
    qed
    show ?thesis
    proof (cases "r1 = Inr UNDEFINED")
      case False
      with Suc.prems(1) PReflective 1 have "h' = h1"
        by (cases r1) (auto split: slot.splits)
      with f1 show ?thesis by simp
    next
      case True
      with 1 have u: "h1 = h"
        using getObjByKeyId_UNDEFINED by blast
      from Suc.prems(1) PReflective 1 True u
      have w: "getByKeyDefault_while g m h this (parent (injectors h ! a)) k nf = Some (r, h')"
        by simp
      have "\<forall>b. parent (injectors h ! a) = PReflective b \<longrightarrow> wf_parents h \<longrightarrow>
                b < length (injectors h) \<longrightarrow> b \<le> t"
      proof (intro allI impI)
        fix b assume b: "parent (injectors h ! a) = PReflective b" "wf_parents h"
        with al have "b < a" by (auto simp: wf_parents_iff)
        with up b(2) show "b \<le> t" by simp
      qed
      from Suc.IH[OF w this] show ?thesis .
    qed
  qed
qed

lemma getByKeyDefault_frame:
  assumes g: "frame_ok g" and i: "getByKeyDefault g m h this k nf vis = Some (r, h')"
  shows "heap_frame this h h'"
proof -
  from i have t: "this < length (injectors h)"
    by (auto simp: getByKeyDefault_def split: if_splits)
  let ?start = "if vis = SkipSelf then parent (injectors h ! this) else PReflective this"
  from i t have w: "getByKeyDefault_while g m h this ?start k nf = Some (r, h')"
    by (simp add: getByKeyDefault_def)
  have "\<forall>a. ?start = PReflective a \<longrightarrow> wf_parents h \<longrightarrow> a < length (injectors h) \<longrightarrow> a \<le> this"
    using t by (auto simp: wf_parents_iff dest: less_imp_le)
  from getByKeyDefault_while_frame[OF g w this] show ?thesis .
qed

lemma getByKey_frame: "frame_ok (getByKey n)"
proof (induction n)
  case 0
  show ?case by (simp add: frame_ok_def)
next
  case (Suc n)
  show ?case
    unfolding frame_ok_def
  proof (intro allI impI)
    fix h this k vis nf r h'
    assume a: "getByKey (Suc n) h this k vis nf = Some (r, h')"
    show "heap_frame this h h'"
    proof (cases "k = INJECTOR_KEY")
      case True
      with a show ?thesis by simp
    next
      case False
      show ?thesis
      proof (cases "vis = Self")
        case True
        with a False have "getByKeySelf (getByKey n) h this k nf = Some (r, h')" by simp
        from getByKeySelf_frame[OF Suc this] show ?thesis .
      next
        case f2: False
        with a False have "getByKeyDefault (getByKey n) n h this k nf vis = Some (r, h')" by simp
        from getByKeyDefault_frame[OF Suc this] show ?thesis .
      qed
    qed
  qed
qed

section \<open>Tokens without a provider\<close>

lemma getObjByKeyId_miss:
  "a < length (injectors h) \<Longrightarrow> findKeyId (keyIds (injectors h ! a)) keyId 0 = None \<Longrightarrow>
   getObjByKeyId g h a keyId = Some (Inr UNDEFINED, h)"
  by (simp add: getObjByKeyId_def)

lemma getByKeyDefault_while_unbound:
  "unbound_up m h (id' k) inj' = Some e \<Longrightarrow> m \<le> m' \<Longrightarrow>
   getByKeyDefault_while g m' h this inj' k nf =
     Some (case e of PNullInjector \<Rightarrow> NullInjector_get (token k) nf
                   | _ \<Rightarrow> throwOrNull this k nf, h)"
proof (induction m arbitrary: m' inj')
  case 0
  then show ?case by (cases inj') auto
next
  case (Suc m)
  show ?case
  proof (cases inj')
    case (PReflective a)
    from Suc.prems(2) obtain m'' where m': "m' = Suc m''" "m \<le> m''" by (cases m') auto
    from Suc.prems(1) PReflective have a: "a < length (injectors h)"
      "findKeyId (keyIds (injectors h ! a)) (id' k) 0 = None"
      "unbound_up m h (id' k) (parent (injectors h ! a)) = Some e"
      by (auto split: if_splits)
    from Suc.IH[OF a(3) m'(2)] show ?thesis
      using PReflective m'(1) by (simp add: getObjByKeyId_miss[OF a(1,2)])
  qed (use Suc.prems in auto)
qed

lemma getByKey_unbound:
  assumes "unbound_up m h (id' k) (PReflective this) = Some e" "m < n" "k \<noteq> INJECTOR_KEY"
  shows "getByKey n h this k NoVisibility nf =
     Some (case e of PNullInjector \<Rightarrow> NullInjector_get (token k) nf
                   | _ \<Rightarrow> throwOrNull this k nf, h)"
proof -
  from assms(2) obtain n' where n: "n = Suc n'" "m \<le> n'" by (cases n) auto
  from assms(1) have t: "this < length (injectors h)" by (cases m) (auto split: if_splits)
  show ?thesis
    using getByKeyDefault_while_unbound[OF assms(1) n(2)] assms(3) t
    by (simp add: n(1) getByKeyDefault_def)
qed

text \<open>
  C3, as the code has it. Let the token have a key other than the injector's own, and let
  no injector up the parent chain have a provider for it. On a chain that ends in
  \<^verbatim>\<open>null\<close>, \<^verbatim>\<open>get\<close> without a default fails with a no-provider error. Whether the
  chain ends in \<^verbatim>\<open>null\<close> or in a \<^verbatim>\<open>NullInjector\<close>, \<^verbatim>\<open>get\<close> with a default
  \<open>D\<close> other than \<^verbatim>\<open>undefined\<close> and the throw markers returns \<open>D\<close>. The
  \<^verbatim>\<open>NullInjector\<close> itself fails without a default and with its throw marker as
  default, and returns every default other than \<^verbatim>\<open>undefined\<close> and the throw markers.
  The store is unchanged in each case.
\<close>

theorem get_not_found:
  assumes "ReflectiveKey_get reg tok = Inr (k, reg')" "k \<noteq> INJECTOR_KEY"
    and "unbound_up m h (id' k) (PReflective this) = Some e" "m < n"
  shows "(e = PNull \<longrightarrow> get n (reg, h) this tok VUndefined = Some (Inl (noProviderError this k), reg', h))
       \<and> (D \<notin> {VUndefined, THROW_IF_NOT_FOUND, Injector_THROW_IF_NOT_FOUND} \<longrightarrow>
            get n (reg, h) this tok D = Some (Inr D, reg', h))
       \<and> NullInjector_get tok VUndefined = Inl (Error (''No provider for '' @ stringify tok @ ''!''))
       \<and> NullInjector_get tok Injector_THROW_IF_NOT_FOUND
           = Inl (Error (''No provider for '' @ stringify tok @ ''!''))
       \<and> (D \<notin> {VUndefined, THROW_IF_NOT_FOUND, Injector_THROW_IF_NOT_FOUND} \<longrightarrow>
            NullInjector_get tok D = Inr D)"
  using assms(1) getByKey_unbound[OF assms(3,4,2)]
  by (cases e) (auto simp: get_def throwOrNull_def NullInjector_get_def)

text \<open>
  \<^verbatim>\<open>get(T, undefined)\<close> on an injector with no provider and no parent: the default
  parameter value replaces \<^verbatim>\<open>undefined\<close>, and the call fails instead of returning
  \<^verbatim>\<open>undefined\<close>.
\<close>

theorem get_undefined_default_fails:
  "get 2 (globalKeyRegistry_init, snd (fromResolvedProviders emptyHeap [] PNull)) 0 (TClass ''T'') VUndefined
   = Some (Inl (noProviderError 0 \<lparr>token = TClass ''T'', id' = 1, displayName = ''T''\<rparr>),
           globalKeyRegistry_init @ [(TClass ''T'', \<lparr>token = TClass ''T'', id' = 1, displayName = ''T''\<rparr>)],
           snd (fromResolvedProviders emptyHeap [] PNull))"
  by (simp add: get_def ReflectiveKey_get_def KeyRegistry_get_def ReflectiveKey_new_def
      numberOfKeys_def globalKeyRegistry_init_def INJECTOR_KEY_def fromResolvedProviders_def
      emptyHeap_def ReflectiveInjector_new_def getByKeyDefault_def getObjByKeyId_def
      throwOrNull_def numeral_2_eq_2)

text \<open>
  The two throw markers are different objects, so each injector takes the other's marker
  for an ordinary default. With a \<^verbatim>\<open>NullInjector\<close> as parent and no default, the
  marker of reflective\_injector.ts is passed to \<^verbatim>\<open>NullInjector.get\<close>, which returns
  it as a value; and the exported marker, given to an injector without a parent, is
  returned as a value too.
\<close>

lemma get_null_parent_no_default:
  "get 2 (globalKeyRegistry_init, snd (fromResolvedProviders emptyHeap [] PNullInjector)) 0 (TClass ''T'') VUndefined
   = Some (Inr THROW_IF_NOT_FOUND,
           globalKeyRegistry_init @ [(TClass ''T'', \<lparr>token = TClass ''T'', id' = 1, displayName = ''T''\<rparr>)],
           snd (fromResolvedProviders emptyHeap [] PNullInjector))"
  by (simp add: get_def ReflectiveKey_get_def KeyRegistry_get_def ReflectiveKey_new_def
      numberOfKeys_def globalKeyRegistry_init_def INJECTOR_KEY_def fromResolvedProviders_def
      emptyHeap_def ReflectiveInjector_new_def getByKeyDefault_def getObjByKeyId_def
      NullInjector_get_def numeral_2_eq_2)

lemma get_exported_marker_no_parent:
  "get 2 (globalKeyRegistry_init, snd (fromResolvedProviders emptyHeap [] PNull)) 0 (TClass ''T'')
     Injector_THROW_IF_NOT_FOUND
   = Some (Inr Injector_THROW_IF_NOT_FOUND,
           globalKeyRegistry_init @ [(TClass ''T'', \<lparr>token = TClass ''T'', id' = 1, displayName = ''T''\<rparr>)],
           snd (fromResolvedProviders emptyHeap [] PNull))"
  by (simp add: get_def ReflectiveKey_get_def KeyRegistry_get_def ReflectiveKey_new_def
      numberOfKeys_def globalKeyRegistry_init_def INJECTOR_KEY_def fromResolvedProviders_def
      emptyHeap_def ReflectiveInjector_new_def getByKeyDefault_def getObjByKeyId_def
      throwOrNull_def numeral_2_eq_2)

theorem get_not_found_witness:
  "get 2 (globalKeyRegistry_init, snd (fromResolvedProviders emptyHeap [] PNull)) 0 (TClass ''T'') (VStr ''fallback'')
   = Some (Inr (VStr ''fallback''),
           globalKeyRegistry_init @ [(TClass ''T'', \<lparr>token = TClass ''T'', id' = 1, displayName = ''T''\<rparr>)],
           snd (fromResolvedProviders emptyHeap [] PNull))"
proof -
  let ?k = "\<lparr>token = TClass ''T'', id' = 1, displayName = ''T''\<rparr>"
  let ?h = "snd (fromResolvedProviders emptyHeap [] PNull)"
  have 1: "ReflectiveKey_get globalKeyRegistry_init (TClass ''T'')
         = Inr (?k, globalKeyRegistry_init @ [(TClass ''T'', ?k)])"
    by (simp add: ReflectiveKey_get_def KeyRegistry_get_def ReflectiveKey_new_def
      numberOfKeys_def globalKeyRegistry_init_def)
  have 2: "?k \<noteq> INJECTOR_KEY" by (simp add: INJECTOR_KEY_def)
  have 3: "unbound_up 1 ?h (id' ?k) (PReflective 0) = Some PNull"
    by (simp add: fromResolvedProviders_def emptyHeap_def ReflectiveInjector_new_def)
  have 4: "(1::nat) < 2" by simp
  from get_not_found[OF 1 2 3 4, of "VStr ''fallback''"] show ?thesis by simp
qed

section \<open>Singletons and fresh instances\<close>

lemma ReflectiveKey_get_again:
  assumes g: "ReflectiveKey_get reg tok = Inr (k, reg')"
  shows "ReflectiveKey_get reg' tok = Inr (k, reg')"
  using ReflectiveKey_get_cases[OF g]
proof (elim disjE exE conjE)
  fix t i d
  assume "tok = TKey t i d" "k = \<lparr>token = t, id' = i, displayName = d\<rparr>" "reg' = reg"
  then show ?thesis by (simp add: ReflectiveKey_get_def KeyRegistry_get_def)
next
  assume "\<forall>t i d. tok \<noteq> TKey t i d" "map_of reg tok = Some k" "reg' = reg"
  then show ?thesis by (simp add: ReflectiveKey_get_hit)
next
  assume a: "\<forall>t i d. tok \<noteq> TKey t i d" "map_of reg tok = None" "reg' = reg @ [(tok, k)]"
  from map_of_snoc_new[OF a(2)] a(3) have "map_of reg' tok = Some k" by simp
  with a(1) show ?thesis by (rule ReflectiveKey_get_hit)
qed

lemma getObjByKeyId_cached:
  "a < length (injectors h) \<Longrightarrow> findKeyId (keyIds (injectors h ! a)) keyId 0 = Some i \<Longrightarrow>
   readSlot (objs (injectors h ! a)) i = Obj v \<Longrightarrow>
   getObjByKeyId g h a keyId = Some (Inr (Obj v), h)"
  by (simp add: getObjByKeyId_def)

lemma setObj_at:
  "a < length (injectors h) \<Longrightarrow>
   injectors (setObj h a i v) ! a = (injectors h ! a)\<lparr>objs := writeSlot (objs (injectors h ! a)) i (Obj v)\<rparr>
   \<and> length (injectors (setObj h a i v)) = length (injectors h)"
  by (simp add: setObj_def)

lemma getObjByKeyId_again:
  assumes g: "frame_ok g" and i: "getObjByKeyId g h a keyId = Some (Inr s, h')"
  shows "getObjByKeyId g2 h' a keyId = Some (Inr s, h')"
  using getObjByKeyId_cases[OF i]
proof (elim conjE disjE exE)
  fix i v h1
  assume a: "a < length (injectors h)"
    "findKeyId (keyIds (injectors h ! a)) keyId 0 = Some i"
    "new' g h a (providers (injectors h ! a) ! i) = Some (Inr v, h1)"
    "Inr s = Inr (Obj v)" "h' = setObj h1 a i v"
  from new'_frame[OF g a(3)] have f1: "heap_frame a h h1" .
  then have l: "a < length (injectors h1)" using a(1) by (simp add: heap_frame_def)
  from heap_frame_keyIds[OF f1 a(1)] a(2)
  have k: "findKeyId (keyIds (injectors h1 ! a)) keyId 0 = Some i" by simp
  show ?thesis
    using setObj_at[OF l, of i v] k a(4,5) l
    by (intro getObjByKeyId_cached[where i=i, THEN trans]) auto
qed (auto simp: getObjByKeyId_miss getObjByKeyId_cached)

lemma throwOrNull_Inr: "throwOrNull this k nf = Inr v \<Longrightarrow> throwOrNull this2 k nf = Inr v"
  by (auto simp: throwOrNull_def split: if_splits)

lemma getByKeyDefault_while_again:
  assumes g: "frame_ok g"
  shows "getByKeyDefault_while g m h this inj' k nf = Some (Inr v, h') \<Longrightarrow>
         getByKeyDefault_while g2 m h' this2 inj' k nf = Some (Inr v, h')"
proof (induction m arbitrary: inj')
  case 0
  then show ?case by (cases inj') (auto dest: throwOrNull_Inr)
next
  case (Suc m)
  show ?case
  proof (cases inj')
    case PNull
    with Suc.prems show ?thesis by (auto dest: throwOrNull_Inr)
  next
    case PNullInjector
    with Suc.prems show ?thesis by simp
  next
    case (PReflective a)
    from Suc.prems PReflective obtain r1 h1 where
      1: "getObjByKeyId g h a (id' k) = Some (r1, h1)"
      by (auto split: option.splits)
    show ?thesis
    proof (cases "r1 = Inr UNDEFINED")
      case False
      with Suc.prems PReflective 1 have "r1 = Inr (Obj v)" "h' = h1"
        by (cases r1; auto split: slot.splits)+
      with 1 have "getObjByKeyId g h a (id' k) = Some (Inr (Obj v), h')" by simp
      from getObjByKeyId_again[OF g this] show ?thesis
        using PReflective by simp
    next
      case True
      with 1 have u: "h1 = h" "a < length (injectors h)"
        "findKeyId (keyIds (injectors h ! a)) (id' k) 0 = None"
        using getObjByKeyId_UNDEFINED by blast+
      from Suc.prems PReflective 1 True u
      have w: "getByKeyDefault_while g m h this (parent (injectors h ! a)) k nf = Some (Inr v, h')"
        by simp
      have "heap_frame (length (injectors h)) h h'"
        by (rule getByKeyDefault_while_frame[OF g w]) simp
      then have s: "a < length (injectors h')"
        "keyIds (injectors h' ! a) = keyIds (injectors h ! a)"
        "parent (injectors h' ! a) = parent (injectors h ! a)"
        using u(2) by (simp_all add: heap_frame_def injector_frame_def)
      from s u(3) have "getObjByKeyId g2 h' a (id' k) = Some (Inr UNDEFINED, h')"
        by (simp add: getObjByKeyId_miss)
      with Suc.IH[OF w] s(3) PReflective show ?thesis by simp
    qed
  qed
qed

lemma getByKey_again:
  assumes "getByKey n h this k vis nf = Some (Inr v, h')"
  shows "getByKey n h' this k vis nf = Some (Inr v, h')"
proof (cases n)
  case 0
  with assms show ?thesis by simp
next
  case (Suc m)
  note g = getByKey_frame[of m]
  show ?thesis
  proof (cases "k = INJECTOR_KEY")
    case True
    with assms Suc show ?thesis by simp
  next
    case False
    show ?thesis
    proof (cases "vis = Self")
      case True
      with assms False Suc have s: "getByKeySelf (getByKey m) h this k nf = Some (Inr v, h')" by simp
      from getByKeySelf_cases[OF s]
      have "getByKeySelf (getByKey m) h' this k nf = Some (Inr v, h')"
      proof (elim disjE exE conjE)
        fix w assume "getObjByKeyId (getByKey m) h this (id' k) = Some (Inr (Obj w), h')" "Inr v = Inr w"
        with getObjByKeyId_again[OF g, of h this "id' k" "Obj w" h' "getByKey m"]
        show ?thesis by (simp add: getByKeySelf_def)
      next
        assume "getObjByKeyId (getByKey m) h this (id' k) = Some (Inr UNDEFINED, h')"
          "Inr v = throwOrNull this k nf"
        with getObjByKeyId_again[OF g, of h this "id' k" UNDEFINED h' "getByKey m"]
        show ?thesis by (simp add: getByKeySelf_def)
      qed simp
      with True False Suc show ?thesis by simp
    next
      case f2: False
      with assms False Suc
      have d: "getByKeyDefault (getByKey m) m h this k nf vis = Some (Inr v, h')" by simp
      then have t: "this < length (injectors h)"
        by (auto simp: getByKeyDefault_def split: if_splits)
      from getByKeyDefault_frame[OF g d] t
      have s: "this < length (injectors h')"
        "parent (injectors h' ! this) = parent (injectors h ! this)"
        by (simp_all add: heap_frame_def injector_frame_def)
      from d t have "getByKeyDefault_while (getByKey m) m h this
          (if vis = SkipSelf then parent (injectors h ! this) else PReflective this) k nf
          = Some (Inr v, h')"
        by (simp add: getByKeyDefault_def)
      from getByKeyDefault_while_again[OF g this, of "getByKey m" this] s
      have "getByKeyDefault (getByKey m) m h' this k nf vis = Some (Inr v, h')"
        by (auto simp: getByKeyDefault_def split: if_splits)
      with f2 False Suc show ?thesis by simp
    qed
  qed
qed

lemma get_again:
  assumes "get n (reg, h) this tok nf = Some (Inr v, reg', h')"
  shows "get n (reg', h') this tok nf = Some (Inr v, reg', h')"
proof -
  let ?nf = "if nf = VUndefined then THROW_IF_NOT_FOUND else nf"
  from assms obtain k where k: "ReflectiveKey_get reg tok = Inr (k, reg')"
    "getByKey n h this k NoVisibility ?nf = Some (Inr v, h')"
    by (auto simp: get_def Let_def split: sum.splits option.splits)
  from ReflectiveKey_get_again[OF k(1)] getByKey_again[OF k(2)]
  show ?thesis by (simp add: get_def)
qed

lemma instantiate_reflection_factory:
  assumes g: "frame_ok g" and f: "factory rf = reflection_factory"
    and i: "instantiate g h this p rf = Some (Inr v, h1)"
  shows "\<exists>r. v = VRef r \<and> nextRef h \<le> r \<and> r < nextRef h1"
proof -
  from i obtain deps hd where 1: "dependencies_map g h this (dependencies rf) = Some (Inr deps, hd)"
    by (auto simp: instantiate_def split: option.splits sum.splits)
  from dependencies_map_frame[OF g 1] have "nextRef h \<le> nextRef hd" by (simp add: heap_frame_def)
  with i 1 f show ?thesis
    by (auto simp: instantiate_def reflection_factory_def)
qed

lemma instantiateResolved_fresh:
  assumes "\<not> multiProvider p" "resolvedFactories p = rf # rest" "factory rf = reflection_factory"
    and 1: "instantiateResolved n h this p = Some (Inr v1, h1)"
    and f: "heap_frame t h1 h1'"
    and 2: "instantiateResolved n2 h1' this2 p = Some (Inr v2, h2)"
  shows "v1 \<noteq> v2"
proof -
  from assms(1,2) 1 have a: "instantiate (getByKey n) h this p rf = Some (Inr v1, h1)"
    by (simp add: instantiateResolved_def instantiateProvider_def)
  from assms(1,2) 2 have b: "instantiate (getByKey n2) h1' this2 p rf = Some (Inr v2, h2)"
    by (simp add: instantiateResolved_def instantiateProvider_def)
  from instantiate_reflection_factory[OF getByKey_frame assms(3) a]
  obtain r1 where r1: "v1 = VRef r1" "r1 < nextRef h1" by blast
  from instantiate_reflection_factory[OF getByKey_frame assms(3) b]
  obtain r2 where r2: "v2 = VRef r2" "nextRef h1' \<le> r2" by blast
  from f have "nextRef h1 \<le> nextRef h1'" by (simp add: heap_frame_def)
  with r1 r2 show ?thesis by simp
qed

lemma instantiate_no_dependencies:
  "dependencies rf = [] \<Longrightarrow> instantiate g h this p rf = Some (r, h') \<Longrightarrow> injectors h' = injectors h"
  by (auto simp: instantiate_def split: sum.splits thrown.splits)

lemma instantiateProvider_for_no_dependencies:
  "\<forall>rf \<in> set rfs. dependencies rf = [] \<Longrightarrow>
   instantiateProvider_for g h this p rfs = Some (r, h') \<Longrightarrow> injectors h' = injectors h"
proof (induction rfs arbitrary: h r)
  case Nil
  then show ?case by simp
next
  case (Cons rf rfs)
  from Cons.prems(2) obtain r1 h1 where 1: "instantiate g h this p rf = Some (r1, h1)"
    by (auto split: option.splits)
  with Cons.prems(1) have e: "injectors h1 = injectors h"
    by (auto dest: instantiate_no_dependencies)
  show ?case
  proof (cases r1)
    case (Inl x)
    with Cons.prems(2) 1 e show ?thesis by simp
  next
    case (Inr v)
    with Cons.prems(2) 1 obtain r2 where "instantiateProvider_for g h1 this p rfs = Some (r2, h')"
      by (auto split: option.splits sum.splits)
    with Cons.IH[of h1 r2] Cons.prems(1) e show ?thesis by simp
  qed
qed

lemma instantiateResolved_no_dependencies:
  assumes "\<forall>rf \<in> set (resolvedFactories p). dependencies rf = []"
    and "instantiateResolved n h this p = Some (r, h')"
  shows "injectors h' = injectors h"
proof (cases "multiProvider p")
  case True
  with assms(2) obtain r1 where
    "instantiateProvider_for (getByKey n) (h\<lparr>nextRef := Suc (nextRef h)\<rparr>) this p (resolvedFactories p)
       = Some (r1, h')"
    by (auto simp: instantiateResolved_def instantiateProvider_def split: option.splits sum.splits)
  from instantiateProvider_for_no_dependencies[OF assms(1) this] show ?thesis by simp
next
  case False
  with assms show ?thesis
    by (cases "resolvedFactories p")
       (auto simp: instantiateResolved_def instantiateProvider_def dest: instantiate_no_dependencies)
qed

lemma dependencies_map_resolves:
  "dependencies_map (getByKey n) h1 this ds' = Some (r, h2) \<Longrightarrow> set ds' \<subseteq> set ds \<Longrightarrow>
   resolves_only n this ds h h1 \<Longrightarrow> resolves_only n this ds h h2"
proof (induction ds' arbitrary: h1 r)
  case Nil
  then show ?case by simp
next
  case (Cons dep ds')
  from Cons.prems(1) obtain r1 h3 where
    1: "getByReflectiveDependency (getByKey n) h1 this dep = Some (r1, h3)"
    by (auto split: option.splits)
  from Cons.prems(2) have d: "dep \<in> set ds" by simp
  from resolves_dep[OF Cons.prems(3) d 1] have s: "resolves_only n this ds h h3" .
  show ?case
  proof (cases r1)
    case (Inl e)
    with Cons.prems(1) 1 have "h2 = h3" by simp
    with s show ?thesis by simp
  next
    case (Inr v)
    with Cons.prems(1) 1 obtain r2 where "dependencies_map (getByKey n) h3 this ds' = Some (r2, h2)"
      by (auto split: option.splits sum.splits)
    from Cons.IH[OF this _ s] Cons.prems(2) show ?thesis by simp
  qed
qed

lemma instantiate_injectors:
  assumes "instantiate g h this p rf = Some (r, h')"
  shows "\<exists>r0 hd. dependencies_map g h this (dependencies rf) = Some (r0, hd)
           \<and> injectors h' = injectors hd \<and> (h' = hd \<or> h' = hd\<lparr>nextRef := Suc (nextRef hd)\<rparr>)"
  using assms
  by (auto simp: instantiate_def split: option.splits sum.splits thrown.splits)

lemma instantiate_resolves:
  assumes "instantiate (getByKey n) h1 this p rf = Some (r, h2)" "set (dependencies rf) \<subseteq> set ds"
    "resolves_only n this ds h h1"
  shows "resolves_only n this ds h h2"
proof -
  from instantiate_injectors[OF assms(1)] obtain r0 hd where
    d: "dependencies_map (getByKey n) h1 this (dependencies rf) = Some (r0, hd)"
    "h2 = hd \<or> h2 = hd\<lparr>nextRef := Suc (nextRef hd)\<rparr>" by blast
  from dependencies_map_resolves[OF d(1) assms(2,3)] have "resolves_only n this ds h hd" .
  with d(2) show ?thesis by (auto intro: resolves_alloc)
qed

lemma instantiateProvider_for_resolves:
  "instantiateProvider_for (getByKey n) h1 this p rfs = Some (r, h2) \<Longrightarrow>
   (\<forall>rf \<in> set rfs. set (dependencies rf) \<subseteq> set ds) \<Longrightarrow>
   resolves_only n this ds h h1 \<Longrightarrow> resolves_only n this ds h h2"
proof (induction rfs arbitrary: h1 r)
  case Nil
  then show ?case by simp
next
  case (Cons rf rfs)
  from Cons.prems(1) obtain r1 h3 where 1: "instantiate (getByKey n) h1 this p rf = Some (r1, h3)"
    by (auto split: option.splits)
  from instantiate_resolves[OF 1 _ Cons.prems(3)] Cons.prems(2)
  have s: "resolves_only n this ds h h3" by simp
  show ?case
  proof (cases r1)
    case (Inl e)
    with Cons.prems(1) 1 have "h2 = h3" by simp
    with s show ?thesis by simp
  next
    case (Inr v)
    with Cons.prems(1) 1 obtain r2 where
      "instantiateProvider_for (getByKey n) h3 this p rfs = Some (r2, h2)"
      by (auto split: option.splits sum.splits)
    from Cons.IH[OF this _ s] Cons.prems(2) show ?thesis by simp
  qed
qed

lemma instantiateResolved_resolves_only:
  assumes "instantiateResolved n h this p = Some (r, h')"
  shows "resolves_only n this (concat (map dependencies (resolvedFactories p))) h h'"
proof (cases "multiProvider p")
  case True
  let ?ds = "concat (map dependencies (resolvedFactories p))"
  from True assms obtain r1 where
    1: "instantiateProvider_for (getByKey n) (h\<lparr>nextRef := Suc (nextRef h)\<rparr>) this p (resolvedFactories p)
       = Some (r1, h')"
    by (auto simp: instantiateResolved_def instantiateProvider_def split: option.splits sum.splits)
  have "resolves_only n this ?ds h (h\<lparr>nextRef := Suc (nextRef h)\<rparr>)"
    by (rule resolves_alloc[OF resolves_refl])
  from instantiateProvider_for_resolves[OF 1 _ this] show ?thesis by auto
next
  case False
  show ?thesis
  proof (cases "resolvedFactories p")
    case Nil
    with False assms show ?thesis
      by (simp add: instantiateResolved_def instantiateProvider_def resolves_refl)
  next
    case (Cons rf rest)
    with False assms have "instantiate (getByKey n) h this p rf = Some (r, h')"
      by (simp add: instantiateResolved_def instantiateProvider_def)
    from instantiate_resolves[OF this _ resolves_refl] Cons show ?thesis by simp
  qed
qed

lemma instantiateResolved_before_factory:
  assumes "\<not> multiProvider p" "resolvedFactories p = rf # rest"
    "instantiateResolved n h this p = Some (r, h')"
  shows "\<exists>r0 hd. dependencies_map (getByKey n) h this (dependencies rf) = Some (r0, hd)
           \<and> injectors h' = injectors hd"
proof -
  from assms have "instantiate (getByKey n) h this p rf = Some (r, h')"
    by (simp add: instantiateResolved_def instantiateProvider_def)
  from instantiate_injectors[OF this] show ?thesis by blast
qed

lemma instantiateResolved_valueProvider:
  "instantiateResolved n h this (valueProvider k v) = Some (Inr v, h\<lparr>nextRef := Suc (nextRef h)\<rparr>)"
  by (simp add: instantiateResolved_def instantiateProvider_def instantiate_def valueProvider_def)

text \<open>
  With no dependency to resolve, nothing but the next address changes.
\<close>

lemma resolves_only_no_dependencies:
  "resolves_only n this [] h h' \<Longrightarrow> injectors h' = injectors h"
  by (induction rule: resolves_only.induct) auto


lemmas example_defs =
  engineHeap_def emptyHeap_def fromResolvedProviders_def ReflectiveInjector_new_def
  classProvider_def valueProvider_def throwingProvider_def exampleKey_def simpleDependency_def
  instantiateResolved_def instantiateProvider_def instantiate_def getByReflectiveDependency_def
  getByKeyDefault_def getByKeySelf_def getObjByKeyId_def new'_def getMaxNumberOfObjects_def
  readSlot_def writeSlot_def setObj_def incrCounter_def INJECTOR_KEY_def
  reflection_factory_def throwOrNull_def



section \<open>Parent and child\<close>

lemma getByKey_child_then_parent:
  assumes c: "c < length (injectors h)" "parent (injectors h ! c) = PReflective p"
    and miss: "findKeyId (keyIds (injectors h ! c)) (id' k) 0 = None"
    and hit: "findKeyId (keyIds (injectors h ! p)) (id' k) 0 = Some i"
    and k: "k \<noteq> INJECTOR_KEY"
    and r: "getByKey n h c k NoVisibility nf = Some (Inr v, h1)"
  shows "getByKey n h1 p k NoVisibility nf = Some (Inr v, h1)"
proof -
  from r obtain m where n: "n = Suc m" by (cases n) auto
  note g = getByKey_frame[of m]
  from r n k c(1) have w: "getByKeyDefault_while (getByKey m) m h c (PReflective c) k nf = Some (Inr v, h1)"
    by (simp add: getByKeyDefault_def)
  then obtain m' where m: "m = Suc m'" by (cases m) auto
  from w m c miss have w2: "getByKeyDefault_while (getByKey m) m' h c (PReflective p) k nf = Some (Inr v, h1)"
    by (simp add: getObjByKeyId_miss)
  then obtain m'' where m': "m' = Suc m''" by (cases m') auto
  from w2 m' obtain r1 h2 where o: "getObjByKeyId (getByKey m) h p (id' k) = Some (r1, h2)"
    by (auto split: option.splits)
  from getObjByKeyId_cases[OF o] hit have "r1 \<noteq> Inr UNDEFINED" by auto
  with w2 m' o have o2: "getObjByKeyId (getByKey m) h p (id' k) = Some (Inr (Obj v), h1)"
    by (cases r1) (auto split: slot.splits)
  from getObjByKeyId_cases[OF o2] have pl: "p < length (injectors h)" by simp
  from getObjByKeyId_frame[OF g o2] pl have pl1: "p < length (injectors h1)"
    by (simp add: heap_frame_def)
  from getObjByKeyId_again[OF g o2]
  have "getObjByKeyId (getByKey m) h1 p (id' k) = Some (Inr (Obj v), h1)" .
  with pl1 show ?thesis using n m k by (simp add: getByKeyDefault_def)
qed

lemma createChildFromResolved_facts:
  assumes "createChildFromResolved h0 p ps = (c, h)" "p < length (injectors h0)"
  shows "c = length (injectors h0)" "c < length (injectors h)" "p < length (injectors h)"
    "injectors h ! p = injectors h0 ! p"
    "parent (injectors h ! c) = PReflective p"
    "keyIds (injectors h ! c) = map (\<lambda>q. id' (key q)) ps"
    "providers (injectors h ! c) = ps"
    "objs (injectors h ! c) = map (\<lambda>q. UNDEFINED) ps"
    "constructionCounter (injectors h ! c) = 0"
    "nextRef h = nextRef h0"
  using assms
  by (auto simp: createChildFromResolved_def ReflectiveInjector_new_def nth_append)

lemma getByKey_construct_simple:
  assumes a: "a < length (injectors h)"
    and j: "findKeyId (keyIds (injectors h ! a)) (id' k) 0 = Some j"
    and u: "readSlot (objs (injectors h ! a)) j = UNDEFINED"
    and jl: "j < length (providers (injectors h ! a))"
    and c: "constructionCounter (injectors h ! a) \<le> length (objs (injectors h ! a))"
    and p: "\<not> multiProvider (providers (injectors h ! a) ! j)"
      "resolvedFactories (providers (injectors h ! a) ! j) = rf # rest" "dependencies rf = []"
      "factory rf [] (nextRef h) = Inr v"
    and k: "k \<noteq> INJECTOR_KEY" and n: "2 \<le> n"
  shows "getByKey n h a k NoVisibility nf
         = Some (Inr v, setObj ((incrCounter h a)\<lparr>nextRef := Suc (nextRef h)\<rparr>) a j v)"
proof -
  from n obtain m where m: "n = Suc (Suc m)" by (cases n; cases "n - 1") auto
  let ?g = "getByKey (Suc m)"
  let ?p = "providers (injectors h ! a) ! j"
  have i: "instantiate ?g (incrCounter h a) a ?p rf
       = Some (Inr v, (incrCounter h a)\<lparr>nextRef := Suc (nextRef h)\<rparr>)"
    using p by (simp add: instantiate_def incrCounter_def)
  have "new' ?g h a ?p = Some (Inr v, (incrCounter h a)\<lparr>nextRef := Suc (nextRef h)\<rparr>)"
    using a c p(1,2) i by (simp add: new'_def getMaxNumberOfObjects_def instantiateProvider_def)
  then have "getObjByKeyId ?g h a (id' k)
       = Some (Inr (Obj v), setObj ((incrCounter h a)\<lparr>nextRef := Suc (nextRef h)\<rparr>) a j v)"
    using a j u jl by (simp add: getObjByKeyId_def)
  then show ?thesis
    using a k by (simp add: m getByKeyDefault_def)
qed

text \<open>
  C2. Let the parent have no parent of its own, and let the child be created from it by
  \<^verbatim>\<open>createChildFromResolved\<close>, while the parent is in any state. Let A be bound in
  the parent and not in the child, and B in the child and not in the parent, the first
  provider of B in the child being one whose single factory has no dependencies and does
  not throw. Then a value that \<^verbatim>\<open>child.get(A)\<close> returns is the value that
  \<^verbatim>\<open>parent.get(A)\<close> returns afterwards; \<^verbatim>\<open>child.get(B)\<close> returns the value of the
  factory; and \<^verbatim>\<open>parent.get(B)\<close> without a default fails with a no-provider error and
  changes nothing.
\<close>

theorem child_visibility:
  assumes par: "p < length (injectors h0)" "parent (injectors h0 ! p) = PNull"
    and child: "createChildFromResolved h0 p ps = (c, h)"
    and kA: "ReflectiveKey_get reg tokA = Inr (kA, regA)" "kA \<noteq> INJECTOR_KEY"
    and kB: "ReflectiveKey_get reg tokB = Inr (kB, regB)" "kB \<noteq> INJECTOR_KEY"
    and A: "id' kA \<in> set (keyIds (injectors h0 ! p))" "id' kA \<notin> set (map (\<lambda>q. id' (key q)) ps)"
    and B: "id' kB \<notin> set (keyIds (injectors h0 ! p))"
      "findKeyId (map (\<lambda>q. id' (key q)) ps) (id' kB) 0 = Some j"
      "\<not> multiProvider (ps ! j)" "resolvedFactories (ps ! j) = rf # rest"
      "dependencies rf = []" "factory rf [] (nextRef h0) = Inr vB"
    and n: "2 \<le> n"
  shows "(get n (reg, h) c tokA nf = Some (Inr v, regA, h1) \<longrightarrow>
            get n (regA, h1) p tokA nf = Some (Inr v, regA, h1))
       \<and> (\<exists>h2. get n (reg, h) c tokB VUndefined = Some (Inr vB, regB, h2))
       \<and> get n (reg, h) p tokB VUndefined = Some (Inl (noProviderError p kB), regB, h)"
proof (intro conjI impI)
  note f = createChildFromResolved_facts[OF child par(1)]
  let ?nf = "if nf = VUndefined then THROW_IF_NOT_FOUND else nf"
  from A(2) f(6) have miss: "findKeyId (keyIds (injectors h ! c)) (id' kA) 0 = None"
    by (simp add: findKeyId_None)
  from A(1) f(4) obtain i where hit: "findKeyId (keyIds (injectors h ! p)) (id' kA) 0 = Some i"
    using findKeyId_None[of "keyIds (injectors h0 ! p)" "id' kA" 0] by auto
  {
    assume "get n (reg, h) c tokA nf = Some (Inr v, regA, h1)"
    with kA(1) have "getByKey n h c kA NoVisibility ?nf = Some (Inr v, h1)"
      by (auto simp: get_def split: option.splits)
    from getByKey_child_then_parent[OF f(2) f(5) miss hit kA(2) this] ReflectiveKey_get_again[OF kA(1)]
    show "get n (regA, h1) p tokA nf = Some (Inr v, regA, h1)"
      by (simp add: get_def)
  }
  have jl: "j < length ps" using findKeyId_Some[OF B(2)] by simp
  have "getByKey n h c kB NoVisibility THROW_IF_NOT_FOUND
        = Some (Inr vB, setObj ((incrCounter h c)\<lparr>nextRef := Suc (nextRef h)\<rparr>) c j vB)"
    using f B jl by (intro getByKey_construct_simple[OF f(2) _ _ _ _ _ _ _ _ kB(2) n])
      (simp_all add: readSlot_def)
  with kB(1) show "\<exists>h2. get n (reg, h) c tokB VUndefined = Some (Inr vB, regB, h2)"
    by (simp add: get_def)
  have "unbound_up 1 h (id' kB) (PReflective p) = Some PNull"
    using f(3,4) B(1) par(2) by (simp add: findKeyId_None)
  from getByKey_unbound[OF this _ kB(2), of n THROW_IF_NOT_FOUND] n kB(1)
  show "get n (reg, h) p tokB VUndefined = Some (Inl (noProviderError p kB), regB, h)"
    by (simp add: get_def throwOrNull_def)
qed

theorem child_visibility_witness:
  "get 3 (exampleRegistry, childHeap) 1 (TClass ''Engine'') VUndefined
     = Some (Inr (VRef 1), exampleRegistry, (setObj (incrCounter childHeap 0) 0 0 (VRef 1))\<lparr>nextRef := 2\<rparr>)
   \<and> get 3 (exampleRegistry, (setObj (incrCounter childHeap 0) 0 0 (VRef 1))\<lparr>nextRef := 2\<rparr>) 0
         (TClass ''Engine'') VUndefined
     = Some (Inr (VRef 1), exampleRegistry, (setObj (incrCounter childHeap 0) 0 0 (VRef 1))\<lparr>nextRef := 2\<rparr>)
   \<and> (\<exists>h2. get 3 (exampleRegistry, childHeap) 1 (TClass ''Car'') VUndefined
          = Some (Inr (VRef 1), exampleRegistry, h2))
   \<and> get 3 (exampleRegistry, childHeap) 0 (TClass ''Car'') VUndefined
     = Some (Inl (noProviderError 0 (exampleKey ''Car'' 2)), exampleRegistry, childHeap)"
proof -
  let ?ps = "[classProvider (exampleKey ''Car'' 2) []]"
  let ?rf = "\<lparr>factory = reflection_factory, dependencies = []\<rparr>"
  let ?h1 = "(setObj (incrCounter childHeap 0) 0 0 (VRef 1))\<lparr>nextRef := 2\<rparr>"
  have par: "0 < length (injectors engineHeap)" "parent (injectors engineHeap ! 0) = PNull"
    by (simp_all add: example_defs)
  have child: "createChildFromResolved engineHeap 0 ?ps = (1, childHeap)"
    by (simp add: childHeap_def createChildFromResolved_def example_defs)
  have kA: "ReflectiveKey_get exampleRegistry (TClass ''Engine'') = Inr (exampleKey ''Engine'' 1, exampleRegistry)"
    "exampleKey ''Engine'' 1 \<noteq> INJECTOR_KEY"
    by (simp_all add: ReflectiveKey_get_def KeyRegistry_get_def exampleRegistry_def
        globalKeyRegistry_init_def exampleKey_def INJECTOR_KEY_def)
  have kB: "ReflectiveKey_get exampleRegistry (TClass ''Car'') = Inr (exampleKey ''Car'' 2, exampleRegistry)"
    "exampleKey ''Car'' 2 \<noteq> INJECTOR_KEY"
    by (simp_all add: ReflectiveKey_get_def KeyRegistry_get_def exampleRegistry_def
        globalKeyRegistry_init_def exampleKey_def INJECTOR_KEY_def)
  have A: "id' (exampleKey ''Engine'' 1) \<in> set (keyIds (injectors engineHeap ! 0))"
    "id' (exampleKey ''Engine'' 1) \<notin> set (map (\<lambda>q. id' (key q)) ?ps)"
    by (simp_all add: example_defs)
  have B: "id' (exampleKey ''Car'' 2) \<notin> set (keyIds (injectors engineHeap ! 0))"
    "findKeyId (map (\<lambda>q. id' (key q)) ?ps) (id' (exampleKey ''Car'' 2)) 0 = Some 0"
    "\<not> multiProvider (?ps ! 0)" "resolvedFactories (?ps ! 0) = ?rf # []"
    "dependencies ?rf = []" "factory ?rf [] (nextRef engineHeap) = Inr (VRef 1)"
    by (simp_all add: example_defs)
  have n: "(2::nat) \<le> 3" by simp
  have 1: "get 3 (exampleRegistry, childHeap) 1 (TClass ''Engine'') VUndefined
     = Some (Inr (VRef 1), exampleRegistry, ?h1)"
    by (simp add: get_def ReflectiveKey_get_def KeyRegistry_get_def exampleRegistry_def
          globalKeyRegistry_init_def childHeap_def createChildFromResolved_def example_defs
          numeral_3_eq_3)
  from child_visibility[OF par child kA kB A B n, where nf = VUndefined and v = "VRef 1" and ?h1.0 = ?h1] 1
  show ?thesis by simp
qed

section \<open>Visibility of dependencies\<close>

lemma getByKeySelf_unbound:
  assumes "a < length (injectors h)" "id' k \<notin> set (keyIds (injectors h ! a))"
  shows "getByKeySelf g h a k nf = Some (throwOrNull a k nf, h)"
  using assms by (simp add: getByKeySelf_def getObjByKeyId_miss findKeyId_None)

lemma getObjByKeyId_value_in_slot:
  assumes g: "frame_ok g" and o: "getObjByKeyId g h a keyId = Some (Inr (Obj v), h')"
  shows "\<exists>i. findKeyId (keyIds (injectors h ! a)) keyId 0 = Some i
           \<and> readSlot (objs (injectors h' ! a)) i = Obj v"
  using getObjByKeyId_cases[OF o]
proof (elim conjE disjE exE)
  fix i w h1
  assume a: "a < length (injectors h)" "findKeyId (keyIds (injectors h ! a)) keyId 0 = Some i"
    "new' g h a (providers (injectors h ! a) ! i) = Some (Inr w, h1)"
    "Inr (Obj v) = Inr (Obj w)" "h' = setObj h1 a i w"
  from new'_frame[OF g a(3)] a(1) have "a < length (injectors h1)" by (simp add: heap_frame_def)
  from setObj_at[OF this, of i w] a(2,4,5) show ?thesis by simp
qed auto

lemma getByKeyDefault_while_own_untouched:
  assumes g: "frame_ok g" and wf: "wf_parents h" and a: "a < length (injectors h)"
    and w: "getByKeyDefault_while g m h a (parent (injectors h ! a)) k nf = Some (r, h')"
  shows "injectors h' ! a = injectors h ! a"
proof (cases "parent (injectors h ! a)")
  case PNull
  with w show ?thesis by simp
next
  case PNullInjector
  with w show ?thesis by simp
next
  case (PReflective p)
  with wf a have pa: "p < a" by (auto simp: wf_parents_iff)
  from w PReflective have "getByKeyDefault_while g m h a (PReflective p) k nf = Some (r, h')" by simp
  from getByKeyDefault_while_frame[OF g this, of p] have "heap_frame p h h'" by simp
  with wf pa a show ?thesis by (simp add: heap_frame_def)
qed

text \<open>
  C5. A dependency marked \<^verbatim>\<open>Self\<close> whose key the injector does not bind is not found
  (the no-provider error, or \<^verbatim>\<open>null\<close> when optional), whatever the parent binds, and
  nothing changes; a value that a \<^verbatim>\<open>Self\<close> dependency resolves to is the content of
  the injector's own slot for the key (or the \<^verbatim>\<open>null\<close> of an optional dependency that
  is not bound). A dependency marked \<^verbatim>\<open>SkipSelf\<close> is resolved by the walk that starts
  at the parent, and in a tree of injectors the injector itself, with its slots and its
  counter, is left as it was, also when it binds the key itself.
\<close>

theorem self_and_skipself:
  assumes a: "a < length (injectors h)" and k: "dkey dep \<noteq> INJECTOR_KEY"
  shows "(visibility dep = Self \<and> id' (dkey dep) \<notin> set (keyIds (injectors h ! a)) \<longrightarrow>
            getByReflectiveDependency (getByKey (Suc n)) h a dep
            = Some (if optional dep then Inr VNull else Inl (noProviderError a (dkey dep)), h))
       \<and> (visibility dep = Self \<and> getByReflectiveDependency (getByKey n) h a dep = Some (Inr v, h') \<longrightarrow>
            (\<exists>i. findKeyId (keyIds (injectors h ! a)) (id' (dkey dep)) 0 = Some i
                  \<and> readSlot (objs (injectors h' ! a)) i = Obj v)
            \<or> (id' (dkey dep) \<notin> set (keyIds (injectors h ! a)) \<and> optional dep \<and> v = VNull \<and> h' = h))
       \<and> (visibility dep = SkipSelf \<longrightarrow>
            getByReflectiveDependency (getByKey (Suc n)) h a dep
            = getByKeyDefault_while (getByKey n) n h a (parent (injectors h ! a)) (dkey dep)
                (if optional dep then VNull else THROW_IF_NOT_FOUND))
       \<and> (visibility dep = SkipSelf \<and> wf_parents h
           \<and> getByReflectiveDependency (getByKey n) h a dep = Some (r, h'') \<longrightarrow>
            injectors h'' ! a = injectors h ! a)"
proof (intro conjI impI)
  let ?nf = "if optional dep then VNull else THROW_IF_NOT_FOUND"
  {
    assume "visibility dep = Self \<and> id' (dkey dep) \<notin> set (keyIds (injectors h ! a))"
    with k getByKeySelf_unbound[OF a, of "dkey dep" "getByKey n" ?nf]
    show "getByReflectiveDependency (getByKey (Suc n)) h a dep
            = Some (if optional dep then Inr VNull else Inl (noProviderError a (dkey dep)), h)"
      by (simp add: getByReflectiveDependency_def throwOrNull_def)
  }
  {
    assume s: "visibility dep = Self \<and> getByReflectiveDependency (getByKey n) h a dep = Some (Inr v, h')"
    then obtain m where n: "n = Suc m" by (cases n) (auto simp: getByReflectiveDependency_def)
    from s k n have "getByKeySelf (getByKey m) h a (dkey dep) ?nf = Some (Inr v, h')"
      by (auto simp: getByReflectiveDependency_def)
    from getByKeySelf_cases[OF this]
    show "(\<exists>i. findKeyId (keyIds (injectors h ! a)) (id' (dkey dep)) 0 = Some i
                  \<and> readSlot (objs (injectors h' ! a)) i = Obj v)
            \<or> (id' (dkey dep) \<notin> set (keyIds (injectors h ! a)) \<and> optional dep \<and> v = VNull \<and> h' = h)"
    proof (elim disjE exE conjE)
      fix w assume "getObjByKeyId (getByKey m) h a (id' (dkey dep)) = Some (Inr (Obj w), h')" "Inr v = Inr w"
      with getObjByKeyId_value_in_slot[OF getByKey_frame, of m h a "id' (dkey dep)" v h']
      show ?thesis by simp
    next
      assume u: "getObjByKeyId (getByKey m) h a (id' (dkey dep)) = Some (Inr UNDEFINED, h')"
        "Inr v = throwOrNull a (dkey dep) ?nf"
      from getObjByKeyId_UNDEFINED[OF u(1)] u(2) show ?thesis
        by (auto simp: throwOrNull_def findKeyId_None split: if_splits)
    qed simp
  }
  {
    assume "visibility dep = SkipSelf"
    with k a show "getByReflectiveDependency (getByKey (Suc n)) h a dep
            = getByKeyDefault_while (getByKey n) n h a (parent (injectors h ! a)) (dkey dep) ?nf"
      by (simp add: getByReflectiveDependency_def getByKeyDefault_def)
  }
  {
    assume s: "visibility dep = SkipSelf \<and> wf_parents h
           \<and> getByReflectiveDependency (getByKey n) h a dep = Some (r, h'')"
    then obtain m where n: "n = Suc m" by (cases n) (auto simp: getByReflectiveDependency_def)
    from s k a n have "getByKeyDefault_while (getByKey m) m h a (parent (injectors h ! a)) (dkey dep) ?nf
        = Some (r, h'')"
      by (auto simp: getByReflectiveDependency_def getByKeyDefault_def)
    from getByKeyDefault_while_own_untouched[OF getByKey_frame _ a this] s
    show "injectors h'' ! a = injectors h ! a" by simp
  }
qed

theorem self_and_skipself_witness:
  "getByReflectiveDependency (getByKey 3) childHeap 1 (engineDependency Self)
     = Some (Inl (noProviderError 1 (exampleKey ''Engine'' 1)), childHeap)
   \<and> getByReflectiveDependency (getByKey 3) twoEngineHeap 1 (engineDependency Self)
     = Some (Inr (VRef 1), (setObj (incrCounter twoEngineHeap 1) 1 0 (VRef 1))\<lparr>nextRef := 2\<rparr>)
   \<and> readSlot (objs (injectors ((setObj (incrCounter twoEngineHeap 1) 1 0 (VRef 1))\<lparr>nextRef := 2\<rparr>) ! 1)) 0
     = Obj (VRef 1)
   \<and> getByReflectiveDependency (getByKey 3) twoEngineHeap 1 (engineDependency SkipSelf)
     = Some (Inr (VRef 1), (setObj (incrCounter twoEngineHeap 0) 0 0 (VRef 1))\<lparr>nextRef := 2\<rparr>)
   \<and> injectors ((setObj (incrCounter twoEngineHeap 0) 0 0 (VRef 1))\<lparr>nextRef := 2\<rparr>) ! 1
     = injectors twoEngineHeap ! 1
   \<and> objs (injectors twoEngineHeap ! 1) = [UNDEFINED]"
proof -
  let ?hs = "(setObj (incrCounter twoEngineHeap 1) 1 0 (VRef 1))\<lparr>nextRef := 2\<rparr>"
  let ?hk = "(setObj (incrCounter twoEngineHeap 0) 0 0 (VRef 1))\<lparr>nextRef := 2\<rparr>"
  note defs = twoEngineHeap_def childHeap_def createChildFromResolved_def engineDependency_def
    example_defs
  have a: "1 < length (injectors childHeap)" "1 < length (injectors twoEngineHeap)"
    by (simp_all add: defs)
  have k: "dkey (engineDependency Self) \<noteq> INJECTOR_KEY" "dkey (engineDependency SkipSelf) \<noteq> INJECTOR_KEY"
    by (simp_all add: defs)
  have wf: "wf_parents twoEngineHeap"
    by (simp add: wf_parents_def defs)
  have s1: "visibility (engineDependency Self) = Self
      \<and> id' (dkey (engineDependency Self)) \<notin> set (keyIds (injectors childHeap ! 1))"
    by (simp add: defs)
  have s2: "getByReflectiveDependency (getByKey 3) twoEngineHeap 1 (engineDependency Self)
     = Some (Inr (VRef 1), ?hs)"
    by (simp add: defs numeral_3_eq_3)
  have s3: "getByReflectiveDependency (getByKey 3) twoEngineHeap 1 (engineDependency SkipSelf)
     = Some (Inr (VRef 1), ?hk)"
    by (simp add: defs numeral_3_eq_3)
  have v: "visibility (engineDependency Self) = Self" "visibility (engineDependency SkipSelf) = SkipSelf"
    "optional (engineDependency Self) = False" "dkey (engineDependency Self) = exampleKey ''Engine'' 1"
    by (simp_all add: defs)
  have f: "findKeyId (keyIds (injectors twoEngineHeap ! 1)) (id' (exampleKey ''Engine'' 1)) 0 = Some 0"
    by (simp add: defs)
  have u: "objs (injectors twoEngineHeap ! 1) = [UNDEFINED]"
    by (simp add: defs)
  from self_and_skipself[OF a(1) k(1), where n = 2 and v = "VRef 1" and h' = ?hs and r = "Inr (VRef 1)" and h'' = ?hk] s1 v
  have c1: "getByReflectiveDependency (getByKey 3) childHeap 1 (engineDependency Self)
     = Some (Inl (noProviderError 1 (exampleKey ''Engine'' 1)), childHeap)"
    by (simp add: eval_nat_numeral)
  from self_and_skipself[OF a(2) k(1), where n = 3 and v = "VRef 1" and h' = ?hs and r = "Inr (VRef 1)" and h'' = ?hk] s2 v f
  have c2: "readSlot (objs (injectors ?hs ! 1)) 0 = Obj (VRef 1)"
    by (auto simp: findKeyId_None)
  from self_and_skipself[OF a(2) k(2), where n = 3 and v = "VRef 1" and h' = ?hs and r = "Inr (VRef 1)" and h'' = ?hk] s3 v wf
  have c3: "injectors ?hk ! 1 = injectors twoEngineHeap ! 1"
    by simp
  from c1 s2 c2 s3 c3 u show ?thesis by simp
qed

section \<open>Duplicate resolved providers\<close>

lemma heap_frame_top:
  "heap_frame b h h' \<Longrightarrow> length (injectors h) \<le> t \<Longrightarrow> heap_frame t h h'"
  by (auto simp: heap_frame_def)

lemma heap_frame_length: "heap_frame t h h' \<Longrightarrow> length (injectors h') = length (injectors h)"
  by (simp add: heap_frame_def)

lemma reachable_frame: "reachable h h' \<Longrightarrow> heap_frame (length (injectors h)) h h'"
proof (induction rule: reachable.induct)
  case (reachable_refl h)
  show ?case by simp
next
  case (reachable_getByKey h h1 n this k vis nf r h2)
  from frame_okD[OF getByKey_frame reachable_getByKey.hyps(2)]
  have 1: "heap_frame this h1 h2" .
  have "length (injectors h1) \<le> length (injectors h)"
    using heap_frame_length[OF reachable_getByKey.IH] by simp
  with 1 have "heap_frame (length (injectors h)) h1 h2"
    by (rule heap_frame_top)
  with reachable_getByKey.IH show ?case by (rule heap_frame_trans)
next
  case (reachable_instantiateResolved h h1 n this p r h2)
  from instantiateProvider_frame[OF getByKey_frame]
    reachable_instantiateResolved.hyps(2)
  have 1: "heap_frame this h1 h2" by (simp add: instantiateResolved_def)
  have "length (injectors h1) \<le> length (injectors h)"
    using heap_frame_length[OF reachable_instantiateResolved.IH] by simp
  with 1 have "heap_frame (length (injectors h)) h1 h2"
    by (rule heap_frame_top)
  with reachable_instantiateResolved.IH show ?case by (rule heap_frame_trans)
qed

lemma findKeyId_first:
  assumes "i < length ks"
  shows "\<exists>i0 \<le> i. findKeyId ks (ks ! i) 0 = Some i0 \<and> ks ! i0 = ks ! i \<and> (\<forall>l < i0. ks ! l \<noteq> ks ! i)"
proof -
  from assms have "ks ! i \<in> set ks" by simp
  then obtain i0 where f: "findKeyId ks (ks ! i) 0 = Some i0"
    using findKeyId_None[of ks "ks ! i" 0] by (cases "findKeyId ks (ks ! i) 0") auto
  from findKeyId_Some[OF f] have s: "ks ! i0 = ks ! i" "\<forall>l < i0. ks ! l \<noteq> ks ! i" by auto
  have "i0 \<le> i"
  proof (rule ccontr)
    assume "\<not> i0 \<le> i"
    then have "i < i0" by simp
    with s(2) show False by blast
  qed
  with f s show ?thesis by blast
qed

lemma fromResolvedProviders_facts:
  assumes "fromResolvedProviders h0 ps par = (a, h)"
  shows "a < length (injectors h)"
    "keyIds (injectors h ! a) = map (\<lambda>q. id' (key q)) ps"
    "providers (injectors h ! a) = ps"
    "objs (injectors h ! a) = map (\<lambda>q. UNDEFINED) ps"
    "constructionCounter (injectors h ! a) = 0"
    "parent (injectors h ! a) = par"
  using assms by (auto simp: fromResolvedProviders_def ReflectiveInjector_new_def)

text \<open>
  C10. \<^verbatim>\<open>fromResolvedProviders\<close> takes a list in which the providers at \<open>i < j\<close>
  have the same key id (it is a total function: no check, no error). In the injector it
  creates, the scan for that key id stops at the lowest index \<open>i0\<close> that holds it;
  looking the key up constructs the provider at \<open>i0\<close> and stores the result in slot
  \<open>i0\<close>; a value that a later lookup of the key returns is the content of slot \<open>i0\<close>;
  and after any sequence of calls the slot \<open>j\<close> of the later duplicate is still
  unconstructed.
\<close>

theorem duplicate_key_first_slot:
  assumes c: "fromResolvedProviders h0 ps par = (a, h)"
    and dup: "i < j" "j < length ps" "id' (key (ps ! i)) = id' (key (ps ! j))"
  shows "\<exists>i0 \<le> i.
           findKeyId (keyIds (injectors h ! a)) (id' (key (ps ! j))) 0 = Some i0
         \<and> id' (key (ps ! i0)) = id' (key (ps ! j))
         \<and> (\<forall>l < i0. id' (key (ps ! l)) \<noteq> id' (key (ps ! j)))
         \<and> (\<forall>g. getObjByKeyId g h a (id' (key (ps ! j)))
              = (case new' g h a (ps ! i0) of
                   None \<Rightarrow> None
                 | Some (Inl e, h') \<Rightarrow> Some (Inl e, h')
                 | Some (Inr v, h') \<Rightarrow> Some (Inr (Obj v), setObj h' a i0 v)))
         \<and> (\<forall>h1 n this vis nf v h2. reachable h h1 \<and> key (ps ! j) \<noteq> INJECTOR_KEY \<and> vis \<noteq> SkipSelf
              \<and> getByKey n h1 a (key (ps ! j)) vis nf = Some (Inr v, h2)
              \<longrightarrow> readSlot (objs (injectors h2 ! a)) i0 = Obj v)
         \<and> (\<forall>h'. reachable h h' \<longrightarrow> readSlot (objs (injectors h' ! a)) j = UNDEFINED)"
proof -
  note f = fromResolvedProviders_facts[OF c]
  let ?ks = "map (\<lambda>q. id' (key q)) ps"
  let ?k = "id' (key (ps ! j))"
  from dup have il: "i < length ?ks" and ki: "?ks ! i = ?k" by simp_all
  from findKeyId_first[OF il] ki obtain i0 where i0: "i0 \<le> i" "findKeyId ?ks ?k 0 = Some i0"
    "?ks ! i0 = ?k" "\<forall>l < i0. ?ks ! l \<noteq> ?k" by auto
  from i0(1) dup have i0l: "i0 < length ps" by simp
  have 1: "findKeyId (keyIds (injectors h ! a)) ?k 0 = Some i0" using f(2) i0(2) by simp
  have 2: "id' (key (ps ! i0)) = ?k" using i0(3) i0l by simp
  have 3: "\<forall>l < i0. id' (key (ps ! l)) \<noteq> ?k" using i0(4) i0l by simp
  have 4: "\<forall>g. getObjByKeyId g h a ?k
              = (case new' g h a (ps ! i0) of
                   None \<Rightarrow> None
                 | Some (Inl e, h') \<Rightarrow> Some (Inl e, h')
                 | Some (Inr v, h') \<Rightarrow> Some (Inr (Obj v), setObj h' a i0 v))"
  proof
    fix g
    have u: "readSlot (objs (injectors h ! a)) i0 = UNDEFINED"
      using f(4) i0l by (simp add: readSlot_def)
    have l: "i0 < length (providers (injectors h ! a))" using f(3) i0l by simp
    show "getObjByKeyId g h a ?k
              = (case new' g h a (ps ! i0) of
                   None \<Rightarrow> None
                 | Some (Inl e, h') \<Rightarrow> Some (Inl e, h')
                 | Some (Inr v, h') \<Rightarrow> Some (Inr (Obj v), setObj h' a i0 v))"
      unfolding getObjByKeyId_def using f(1) 1 u l f(3) by simp
  qed
  have fr: "\<And>h'. reachable h h' \<Longrightarrow> a < length (injectors h') \<and>
      keyIds (injectors h' ! a) = ?ks \<and> parent (injectors h' ! a) = par
      \<and> (\<forall>l. \<not> isFirst ?ks l \<longrightarrow> readSlot (objs (injectors h' ! a)) l = readSlot (objs (injectors h ! a)) l)"
    using f(1,2,6) by (auto dest!: reachable_frame simp: heap_frame_def injector_frame_def)
  have 5: "\<forall>h1 n this vis nf v h2. reachable h h1 \<and> key (ps ! j) \<noteq> INJECTOR_KEY \<and> vis \<noteq> SkipSelf
              \<and> getByKey n h1 a (key (ps ! j)) vis nf = Some (Inr v, h2)
              \<longrightarrow> readSlot (objs (injectors h2 ! a)) i0 = Obj v"
  proof (intro allI impI, elim conjE)
    fix h1 n this vis nf v h2
    assume r: "reachable h h1" and k: "key (ps ! j) \<noteq> INJECTOR_KEY" and vis: "vis \<noteq> SkipSelf"
      and g: "getByKey n h1 a (key (ps ! j)) vis nf = Some (Inr v, h2)"
    from fr[OF r] i0(2) have a1: "a < length (injectors h1)"
      "findKeyId (keyIds (injectors h1 ! a)) ?k 0 = Some i0" by simp_all
    from g obtain m where n: "n = Suc m" by (cases n) auto
    have "\<exists>r1. getObjByKeyId (getByKey m) h1 a ?k = Some (r1, h2) \<and> (r1 = Inr UNDEFINED \<or> r1 = Inr (Obj v))"
    proof (cases "vis = Self")
      case True
      with g n k have "getByKeySelf (getByKey m) h1 a (key (ps ! j)) nf = Some (Inr v, h2)" by simp
      from getByKeySelf_cases[OF this] show ?thesis by auto
    next
      case False
      with g n k vis a1(1)
      have w: "getByKeyDefault_while (getByKey m) m h1 a (PReflective a) (key (ps ! j)) nf = Some (Inr v, h2)"
        by (simp add: getByKeyDefault_def)
      then obtain m' where m: "m = Suc m'" by (cases m) auto
      from w m obtain r1 h3 where o: "getObjByKeyId (getByKey m) h1 a ?k = Some (r1, h3)"
        by (auto split: option.splits)
      from getObjByKeyId_cases[OF o] a1(2) have nu: "r1 \<noteq> Inr UNDEFINED" by auto
      with w m o show ?thesis by (cases r1) (auto split: slot.splits)
    qed
    then obtain r1 where o: "getObjByKeyId (getByKey m) h1 a ?k = Some (r1, h2)"
      "r1 = Inr UNDEFINED \<or> r1 = Inr (Obj v)" by blast
    from getObjByKeyId_cases[OF o(1)] a1(2) o(2) have "r1 = Inr (Obj v)" by auto
    with o(1) getObjByKeyId_value_in_slot[OF getByKey_frame, of m h1 a ?k v h2] a1(2)
    show "readSlot (objs (injectors h2 ! a)) i0 = Obj v" by simp
  qed
  have nf: "\<not> isFirst ?ks j"
    using i0(1,2) dup(1) by (simp add: isFirst_def)
  have 6: "\<forall>h'. reachable h h' \<longrightarrow> readSlot (objs (injectors h' ! a)) j = UNDEFINED"
    using fr nf f(4) dup(2) by (simp add: readSlot_def)
  show ?thesis
    by (rule exI[of _ i0]) (intro conjI i0(1) 1 2 3 4 5 6)
qed

theorem duplicate_key_first_slot_witness:
  "fromResolvedProviders (emptyHeap\<lparr>nextRef := 1\<rparr>)
      [classProvider (exampleKey ''Engine'' 1) [], duplicateProvider] PNull = (0, duplicateHeap)
   \<and> id' (key (classProvider (exampleKey ''Engine'' 1) [])) = id' (key duplicateProvider)
   \<and> getByKey 3 duplicateHeap 0 (exampleKey ''Engine'' 1) NoVisibility THROW_IF_NOT_FOUND
     = Some (Inr (VRef 1), (setObj (incrCounter duplicateHeap 0) 0 0 (VRef 1))\<lparr>nextRef := 2\<rparr>)
   \<and> readSlot (objs (injectors ((setObj (incrCounter duplicateHeap 0) 0 0 (VRef 1))\<lparr>nextRef := 2\<rparr>) ! 0)) 0
     = Obj (VRef 1)
   \<and> readSlot (objs (injectors ((setObj (incrCounter duplicateHeap 0) 0 0 (VRef 1))\<lparr>nextRef := 2\<rparr>) ! 0)) 1
     = UNDEFINED"
proof -
  let ?ps = "[classProvider (exampleKey ''Engine'' 1) [], duplicateProvider]"
  let ?hD = "(setObj (incrCounter duplicateHeap 0) 0 0 (VRef 1))\<lparr>nextRef := 2\<rparr>"
  note defs = duplicateHeap_def duplicateProvider_def example_defs
  have c: "fromResolvedProviders (emptyHeap\<lparr>nextRef := 1\<rparr>) ?ps PNull = (0, duplicateHeap)"
    by (simp add: defs)
  have dup: "(0::nat) < 1" "1 < length ?ps" "id' (key (?ps ! 0)) = id' (key (?ps ! 1))"
    by (simp_all add: defs)
  have g: "getByKey 3 duplicateHeap 0 (exampleKey ''Engine'' 1) NoVisibility THROW_IF_NOT_FOUND
     = Some (Inr (VRef 1), ?hD)"
    by (simp add: defs numeral_3_eq_3)
  have r: "reachable duplicateHeap ?hD"
    by (rule reachable_getByKey[OF reachable_refl g])
  have k: "key (?ps ! 1) = exampleKey ''Engine'' 1" "key (?ps ! 1) \<noteq> INJECTOR_KEY"
    by (simp_all add: defs)
  from duplicate_key_first_slot[OF c dup]
  have 12: "readSlot (objs (injectors ?hD ! 0)) 1 = UNDEFINED
      \<and> readSlot (objs (injectors ?hD ! 0)) 0 = Obj (VRef 1)"
  proof (elim exE conjE)
    fix i0
    assume z: "i0 \<le> 0"
      and s5: "\<forall>h1 n this vis nf v h2. reachable duplicateHeap h1 \<and> key (?ps ! 1) \<noteq> INJECTOR_KEY
         \<and> vis \<noteq> SkipSelf \<and> getByKey n h1 0 (key (?ps ! 1)) vis nf = Some (Inr v, h2)
         \<longrightarrow> readSlot (objs (injectors h2 ! 0)) i0 = Obj v"
      and s6: "\<forall>h'. reachable duplicateHeap h' \<longrightarrow> readSlot (objs (injectors h' ! 0)) 1 = UNDEFINED"
    from s6[rule_format, OF r] have 1: "readSlot (objs (injectors ?hD ! 0)) 1 = UNDEFINED" .
    have "reachable duplicateHeap duplicateHeap \<and> key (?ps ! 1) \<noteq> INJECTOR_KEY
         \<and> NoVisibility \<noteq> SkipSelf
         \<and> getByKey 3 duplicateHeap 0 (key (?ps ! 1)) NoVisibility THROW_IF_NOT_FOUND = Some (Inr (VRef 1), ?hD)"
      using g k reachable_refl by simp
    then have "readSlot (objs (injectors ?hD ! 0)) i0 = Obj (VRef 1)"
      by (rule s5[rule_format])
    with z 1 show ?thesis by simp
  qed
  from c dup(3) g 12 show ?thesis by simp
qed

section \<open>Failing factories\<close>

lemma getByKey_construct:
  assumes a: "a < length (injectors h)"
    and j: "findKeyId (keyIds (injectors h ! a)) (id' k) 0 = Some j"
    and u: "readSlot (objs (injectors h ! a)) j = UNDEFINED"
    and jl: "j < length (providers (injectors h ! a))"
    and c: "constructionCounter (injectors h ! a) \<le> length (objs (injectors h ! a))"
    and p: "\<not> multiProvider (providers (injectors h ! a) ! j)"
      "resolvedFactories (providers (injectors h ! a) ! j) = rf # rest"
    and k: "k \<noteq> INJECTOR_KEY" and n: "0 < n"
  shows "getByKey (Suc n) h a k NoVisibility nf =
     (case instantiate (getByKey n) (incrCounter h a) a (providers (injectors h ! a) ! j) rf of
        None \<Rightarrow> None
      | Some (Inl e, h') \<Rightarrow> Some (Inl e, h')
      | Some (Inr v, h') \<Rightarrow> Some (Inr v, setObj h' a j v))"
proof -
  from n obtain m where m: "n = Suc m" by (cases n) auto
  let ?p = "providers (injectors h ! a) ! j"
  have "new' (getByKey n) h a ?p = instantiate (getByKey n) (incrCounter h a) a ?p rf"
    using a c p by (simp add: new'_def getMaxNumberOfObjects_def instantiateProvider_def)
  then have "getObjByKeyId (getByKey n) h a (id' k) =
     (case instantiate (getByKey n) (incrCounter h a) a ?p rf of
        None \<Rightarrow> None
      | Some (Inl e, h') \<Rightarrow> Some (Inl e, h')
      | Some (Inr v, h') \<Rightarrow> Some (Inr (Obj v), setObj h' a j v))"
    using a j u jl by (simp add: getObjByKeyId_def)
  then show ?thesis
    using a k unfolding m
    by (auto simp: getByKeyDefault_def split: option.splits sum.splits)
qed

text \<open>
  What \<^verbatim>\<open>instantiate\<close> does with a failure, for every provider, every factory of it
  and every injector: a factory that throws a value other than \<^verbatim>\<open>null\<close> and
  \<^verbatim>\<open>undefined\<close> gives the instantiation error that holds the value thrown (so its
  message), its stack and the key of the provider; a factory that throws \<^verbatim>\<open>null\<close> or
  \<^verbatim>\<open>undefined\<close> gives a TypeError; an injection error of a dependency is passed on
  with the key of the provider added, a plain error unchanged.
\<close>

lemma instantiate_failures:
  "(dependencies_map g h this (dependencies rf) = Some (Inr args, h1)
      \<and> factory rf args (nextRef h1) = Inl (Thrown m st) \<longrightarrow>
      instantiate g h this p rf
      = Some (Inl (InjectionError (Instantiation (Thrown m st) st) [key p] [this]),
              h1\<lparr>nextRef := Suc (nextRef h1)\<rparr>))
   \<and> (dependencies_map g h this (dependencies rf) = Some (Inr args, h1)
      \<and> factory rf args (nextRef h1) \<in> {Inl ThrownNull, Inl ThrownUndefined} \<longrightarrow>
      instantiate g h this p rf
      = Some (Inl (Error ''TypeError''), h1\<lparr>nextRef := Suc (nextRef h1)\<rparr>))
   \<and> (dependencies_map g h this (dependencies rf) = Some (Inl (InjectionError kind ks injs), h2) \<longrightarrow>
      instantiate g h this p rf
      = Some (Inl (InjectionError kind (ks @ [key p]) (injs @ [this])), h2))
   \<and> (dependencies_map g h this (dependencies rf) = Some (Inl (Error msg), h2) \<longrightarrow>
      instantiate g h this p rf = Some (Inl (Error msg), h2))"
  by (auto simp: instantiate_def instantiationError_def)

text \<open>
  The same at the level of \<^verbatim>\<open>get\<close>, when the provider \<open>p\<close> of the token is found in
  the injector's own slot \<open>j\<close>, unconstructed, with the counter within its bound.
\<close>

lemma get_factory_failure:
  assumes reg: "ReflectiveKey_get reg tok = Inr (k, reg')" and k: "k \<noteq> INJECTOR_KEY"
    and a: "a < length (injectors h)"
    and j: "findKeyId (keyIds (injectors h ! a)) (id' k) 0 = Some j"
    and u: "readSlot (objs (injectors h ! a)) j = UNDEFINED"
    and jl: "j < length (providers (injectors h ! a))"
    and c: "constructionCounter (injectors h ! a) \<le> length (objs (injectors h ! a))"
    and p: "providers (injectors h ! a) ! j = p" "\<not> multiProvider p" "resolvedFactories p = rf # rest"
    and n: "0 < n"
  shows "(dependencies_map (getByKey n) (incrCounter h a) a (dependencies rf) = Some (Inr args, h1)
          \<and> factory rf args (nextRef h1) = Inl (Thrown m st) \<longrightarrow>
            get (Suc n) (reg, h) a tok nf
            = Some (Inl (InjectionError (Instantiation (Thrown m st) st) [key p] [a]),
                    reg', h1\<lparr>nextRef := Suc (nextRef h1)\<rparr>))
       \<and> (dependencies_map (getByKey n) (incrCounter h a) a (dependencies rf) = Some (Inr args, h1)
          \<and> factory rf args (nextRef h1) \<in> {Inl ThrownNull, Inl ThrownUndefined} \<longrightarrow>
            get (Suc n) (reg, h) a tok nf
            = Some (Inl (Error ''TypeError''), reg', h1\<lparr>nextRef := Suc (nextRef h1)\<rparr>))
       \<and> (dependencies_map (getByKey n) (incrCounter h a) a (dependencies rf)
            = Some (Inl (InjectionError kind ks injs), h2) \<longrightarrow>
            get (Suc n) (reg, h) a tok nf
            = Some (Inl (InjectionError kind (ks @ [key p]) (injs @ [a])), reg', h2))
       \<and> (dependencies_map (getByKey n) (incrCounter h a) a (dependencies rf)
            = Some (Inl (Error msg), h2) \<longrightarrow>
            get (Suc n) (reg, h) a tok nf = Some (Inl (Error msg), reg', h2))"
proof -
  let ?nf = "if nf = VUndefined then THROW_IF_NOT_FOUND else nf"
  from p have p': "\<not> multiProvider (providers (injectors h ! a) ! j)"
    "resolvedFactories (providers (injectors h ! a) ! j) = rf # rest" by simp_all
  note g = getByKey_construct[OF a j u jl c p' k n, of ?nf]
  show ?thesis
    using reg p(1)
    by (auto simp: get_def g instantiate_def instantiationError_def simp del: getByKey.simps)
qed

text \<open>
  C7, at a failing input. The injector has one provider, whose factory throws
  \<^verbatim>\<open>null\<close>. \<^verbatim>\<open>get\<close> throws a TypeError, which holds neither the value thrown nor the
  key of the provider, where the same provider with a factory that throws an error object
  gives the instantiation error with that object, its stack and the key.
\<close>

theorem factory_throwing_null_is_type_error:
  "get 2 (exampleRegistry, nullThrowingHeap) 0 (TClass ''Engine'') VUndefined
     = Some (Inl (Error ''TypeError''), exampleRegistry, (incrCounter nullThrowingHeap 0)\<lparr>nextRef := 1\<rparr>)
   \<and> get 2 (exampleRegistry, throwingHeap) 0 (TClass ''Engine'') VUndefined
     = Some (Inl (InjectionError (Instantiation (Thrown ''boom'' (Some ''at Engine'')) (Some ''at Engine''))
                    [exampleKey ''Engine'' 1] [0]),
             exampleRegistry, (incrCounter throwingHeap 0)\<lparr>nextRef := 1\<rparr>)
   \<and> providers (injectors nullThrowingHeap ! 0) = [throwingProvider (exampleKey ''Engine'' 1) ThrownNull]
   \<and> providers (injectors throwingHeap ! 0)
     = [throwingProvider (exampleKey ''Engine'' 1) (Thrown ''boom'' (Some ''at Engine''))]"
  by (simp add: get_def ReflectiveKey_get_def KeyRegistry_get_def exampleRegistry_def
        globalKeyRegistry_init_def throwingHeap_def nullThrowingHeap_def example_defs
        instantiationError_def numeral_2_eq_2)

text \<open>
  A failure inside a dependency: \<^verbatim>\<open>Car\<close> depends on a provider whose factory throws;
  the instantiation error reaches the caller of \<^verbatim>\<open>get(Car)\<close> with both keys in its
  chain, innermost first.
\<close>

lemma get_dependency_failure_example:
  "get 3 (exampleRegistry, failingCarHeap) 0 (TClass ''Car'') VUndefined
     = Some (Inl (InjectionError (Instantiation (Thrown ''boom'' (Some ''at Engine'')) (Some ''at Engine''))
                    [exampleKey ''Engine'' 1, exampleKey ''Car'' 2] [0, 0]),
             exampleRegistry, (incrCounter (incrCounter failingCarHeap 0) 0)\<lparr>nextRef := 1\<rparr>)"
  by (simp add: get_def ReflectiveKey_get_def KeyRegistry_get_def exampleRegistry_def
        globalKeyRegistry_init_def failingCarHeap_def example_defs
        instantiationError_def numeral_3_eq_3)

text \<open>
  C8, at a failing input. The injector has one provider, whose factory throws. The first
  and the second \<^verbatim>\<open>get\<close> run the factory and throw the instantiation error; the
  third throws a cyclic-dependency error without running the factory (no address is
  used), because the construction counter, never reset, has passed the number of slots. The
  slot stays unconstructed throughout.
\<close>

theorem failing_get_becomes_cyclic:
  "get 2 (exampleRegistry, throwingHeap) 0 (TClass ''Engine'') VUndefined
     = Some (Inl (instantiationError 0 (Thrown ''boom'' (Some ''at Engine'')) (Some ''at Engine'') (exampleKey ''Engine'' 1)),
             exampleRegistry, (incrCounter throwingHeap 0)\<lparr>nextRef := 1\<rparr>)
   \<and> get 2 (exampleRegistry, (incrCounter throwingHeap 0)\<lparr>nextRef := 1\<rparr>) 0 (TClass ''Engine'') VUndefined
     = Some (Inl (instantiationError 0 (Thrown ''boom'' (Some ''at Engine'')) (Some ''at Engine'') (exampleKey ''Engine'' 1)),
             exampleRegistry, (incrCounter (incrCounter throwingHeap 0) 0)\<lparr>nextRef := 2\<rparr>)
   \<and> get 2 (exampleRegistry, (incrCounter (incrCounter throwingHeap 0) 0)\<lparr>nextRef := 2\<rparr>) 0
         (TClass ''Engine'') VUndefined
     = Some (Inl (cyclicDependencyError 0 (exampleKey ''Engine'' 1)),
             exampleRegistry, (incrCounter (incrCounter (incrCounter throwingHeap 0) 0) 0)\<lparr>nextRef := 2\<rparr>)
   \<and> objs (injectors throwingHeap ! 0) = [UNDEFINED]
   \<and> providers (injectors throwingHeap ! 0)
     = [throwingProvider (exampleKey ''Engine'' 1) (Thrown ''boom'' (Some ''at Engine''))]"
  by (simp add: get_def ReflectiveKey_get_def KeyRegistry_get_def exampleRegistry_def
        globalKeyRegistry_init_def throwingHeap_def example_defs instantiationError_def
        cyclicDependencyError_def numeral_2_eq_2)

section \<open>Cyclic dependencies\<close>

lemma is_cyclic_addKey [simp]: "is_cyclic (addKey e a k) = is_cyclic e"
  by (cases e) auto

lemma cyclic_inD:
  assumes "cyclic_in i K" "keyId \<in> set K"
  shows "\<exists>j rf rest dep ds. findKeyId (keyIds i) keyId 0 = Some j \<and> j < length (providers i)
          \<and> readSlot (objs i) j = UNDEFINED
          \<and> resolvedFactories (providers i ! j) = rf # rest \<and> dependencies rf = dep # ds
          \<and> id' (dkey dep) \<in> set K \<and> dkey dep \<noteq> INJECTOR_KEY \<and> visibility dep \<noteq> SkipSelf"
proof -
  from assms obtain j where j: "findKeyId (keyIds i) keyId 0 = Some j" "j < length (providers i)"
    "readSlot (objs i) j = UNDEFINED" "dependsInto K (providers i ! j)"
    by (auto simp: cyclic_in_def list_all_iff split: option.splits)
  from j(4) obtain rf rest where rf: "resolvedFactories (providers i ! j) = rf # rest"
    by (cases "resolvedFactories (providers i ! j)") (auto simp: dependsInto_def)
  with j(4) obtain dep ds where d: "dependencies rf = dep # ds"
    by (cases "dependencies rf") (auto simp: dependsInto_def)
  with j(4) rf have "id' (dkey dep) \<in> set K \<and> dkey dep \<noteq> INJECTOR_KEY \<and> visibility dep \<noteq> SkipSelf"
    by (simp add: dependsInto_def)
  with j rf d show ?thesis by blast
qed

lemma incrCounter_at:
  "a < length (injectors h) \<Longrightarrow>
   length (injectors (incrCounter h a)) = length (injectors h)
   \<and> injectors (incrCounter h a) ! a
     = (injectors h ! a)\<lparr>constructionCounter := Suc (constructionCounter (injectors h ! a))\<rparr>"
  by (simp add: incrCounter_def)

lemma cyclic_in_same:
  "keyIds i' = keyIds i \<Longrightarrow> providers i' = providers i \<Longrightarrow> objs i' = objs i \<Longrightarrow>
   cyclic_in i' K = cyclic_in i K"
  by (simp add: cyclic_in_def cong: option.case_cong)

text \<open>One construction, started with the counter \<open>c\<close>, in an injector of cyclic providers.\<close>

lemma getObjByKeyId_cyclic:
  "a < length (injectors h) \<Longrightarrow> cyclic_in (injectors h ! a) K \<Longrightarrow> keyId \<in> set K \<Longrightarrow>
   Suc (length (objs (injectors h ! a))) - constructionCounter (injectors h ! a) \<le> d \<Longrightarrow>
   d < n \<Longrightarrow>
   \<exists>e h'. getObjByKeyId (getByKey n) h a keyId = Some (Inl e, h') \<and> is_cyclic e"
proof (induction d arbitrary: h keyId n)
  case 0
  from cyclic_inD[OF 0(2,3)] obtain j where j: "findKeyId (keyIds (injectors h ! a)) keyId 0 = Some j"
    "j < length (providers (injectors h ! a))" "readSlot (objs (injectors h ! a)) j = UNDEFINED"
    by blast
  from 0(4) have "constructionCounter (injectors h ! a) > getMaxNumberOfObjects (injectors h ! a)"
    by (simp add: getMaxNumberOfObjects_def)
  with 0(1) j show ?case
    by (simp add: getObjByKeyId_def new'_def cyclicDependencyError_def)
next
  case (Suc d)
  let ?i = "injectors h ! a"
  from cyclic_inD[OF Suc.prems(2,3)] obtain j rf rest dep ds where
    j: "findKeyId (keyIds ?i) keyId 0 = Some j" "j < length (providers ?i)"
       "readSlot (objs ?i) j = UNDEFINED"
    and p: "resolvedFactories (providers ?i ! j) = rf # rest" "dependencies rf = dep # ds"
    and dep: "id' (dkey dep) \<in> set K" "dkey dep \<noteq> INJECTOR_KEY" "visibility dep \<noteq> SkipSelf"
    by blast
  let ?p = "providers ?i ! j"
  show ?case
  proof (cases "constructionCounter ?i > getMaxNumberOfObjects ?i")
    case True
    with Suc.prems(1) j show ?thesis
      by (simp add: getObjByKeyId_def new'_def cyclicDependencyError_def)
  next
    case False
    from Suc.prems(5) obtain m where n: "n = Suc m" "d < m" by (cases n) auto
    then obtain m' where m: "m = Suc m'" by (cases m) auto
    define h1 where "h1 = incrCounter h a"
    have inner: "\<exists>e h'. instantiate (getByKey n) hx a ?p rf = Some (Inl e, h') \<and> is_cyclic e"
      if hx: "hx = h1 \<or> hx = h1\<lparr>nextRef := Suc (nextRef h1)\<rparr>" for hx
    proof -
      from hx incrCounter_at[OF Suc.prems(1)]
      have l: "a < length (injectors hx)"
        and e: "injectors hx ! a = ?i\<lparr>constructionCounter := Suc (constructionCounter ?i)\<rparr>"
        using Suc.prems(1) by (auto simp: h1_def)
      from e have "cyclic_in (injectors hx ! a) K = cyclic_in ?i K"
        by (intro cyclic_in_same) simp_all
      with Suc.prems(2) have cy: "cyclic_in (injectors hx ! a) K" by simp
      from e Suc.prems(4) False
      have b: "Suc (length (objs (injectors hx ! a))) - constructionCounter (injectors hx ! a) \<le> d"
        by (simp add: getMaxNumberOfObjects_def)
      from Suc.IH[OF l cy dep(1) b n(2)] obtain e1 h' where
        o: "getObjByKeyId (getByKey m) hx a (id' (dkey dep)) = Some (Inl e1, h')" "is_cyclic e1"
        by blast
      have "getByKey n hx a (dkey dep) (visibility dep)
              (if optional dep then VNull else THROW_IF_NOT_FOUND) = Some (Inl e1, h')"
      proof (cases "visibility dep = Self")
        case True
        with dep(2) o(1) show ?thesis by (simp add: n(1) getByKeySelf_def)
      next
        case f: False
        with dep(2,3) o(1) l show ?thesis
          unfolding n(1) by (simp add: getByKeyDefault_def m[symmetric]) (simp add: m)
      qed
      then have "dependencies_map (getByKey n) hx a (dep # ds) = Some (Inl e1, h')"
        by (simp add: getByReflectiveDependency_def del: getByKey.simps)
      with p(2) o(2) show ?thesis
        by (simp add: instantiate_def del: getByKey.simps)
    qed
    have "\<exists>e h'. instantiateProvider (getByKey n) h1 a ?p = Some (Inl e, h') \<and> is_cyclic e"
    proof (cases "multiProvider ?p")
      case True
      from inner[of "h1\<lparr>nextRef := Suc (nextRef h1)\<rparr>"] obtain e h' where
        "instantiate (getByKey n) (h1\<lparr>nextRef := Suc (nextRef h1)\<rparr>) a ?p rf = Some (Inl e, h')"
        "is_cyclic e" by auto
      with True p(1) show ?thesis
        by (simp add: instantiateProvider_def del: getByKey.simps)
    next
      case f: False
      from inner[of h1] obtain e h' where
        "instantiate (getByKey n) h1 a ?p rf = Some (Inl e, h')" "is_cyclic e" by auto
      with f p(1) show ?thesis
        by (simp add: instantiateProvider_def del: getByKey.simps)
    qed
    then obtain e h' where "instantiateProvider (getByKey n) h1 a ?p = Some (Inl e, h')" "is_cyclic e"
      by blast
    with False Suc.prems(1) j show ?thesis
      by (simp add: getObjByKeyId_def new'_def h1_def del: getByKey.simps)
  qed
qed



end
